theory Spec2Isabelle
  imports Main "HOL-Library.Word" "HOL-Library.Multiset"
begin

unbundle bit_operations_syntax

section \<open>Memory model\<close>

text \<open>
  The sort routines of \<^verbatim>\<open>emu_sort_local.c\<close> work on untyped memory: the caller's array
  \<^verbatim>\<open>base\<close>, the merge-sort scratch array \<^verbatim>\<open>temp\<close> obtained from \<^verbatim>\<open>malloc\<close>, and one
  element-sized local block (\<^verbatim>\<open>key\<close> of \<^verbatim>\<open>insertion_sort\<close>, \<^verbatim>\<open>pivot\<close> of
  \<^verbatim>\<open>p_quick_sort\<close>). Each block is a list of bytes; a pointer is a block together with a
  byte offset, which may lie outside the block. An access outside the block, an access
  through a null pointer and a failed \<^verbatim>\<open>assert\<close> end the run with a fault.
  \<^verbatim>\<open>cilk_spawn\<close>/\<^verbatim>\<open>cilk_sync\<close> are run in program order: the spawned calls work on
  disjoint index ranges.
\<close>

type_synonym byte = "8 word"

datatype fault = AssertionFailed | OutOfRange | NullPointer | DivisionByZero | IntegerOverflow

datatype region = Base | Temp | Scratch

type_synonym ptr = "region \<times> int"

record mem =
  base :: "byte list"
  temp :: "byte list option"
  scratch :: "byte list option"
  heap :: nat

type_synonym compar = "byte list \<Rightarrow> byte list \<Rightarrow> int"

text \<open>
  Sizes and indices of type \<^verbatim>\<open>size_t\<close> are natural numbers and those of type \<^verbatim>\<open>long\<close>
  integers. An array that fits the address space keeps the sums and products of the source
  below \<open>2 ^ 64\<close>; where the source relies on the conversion between the two types
  (\<^verbatim>\<open>num - 1\<close> passed as a \<^verbatim>\<open>long\<close>, a pointer difference divided by a \<^verbatim>\<open>size_t\<close>)
  the conversion is written out with \<open>to_size_t\<close> and \<open>to_long\<close>.
\<close>

definition to_size_t :: "int \<Rightarrow> nat" where
  "to_size_t x = nat (x mod 2 ^ 64)"

definition to_long :: "int \<Rightarrow> int" where
  "to_long x = (if x mod 2 ^ 64 < 2 ^ 63 then x mod 2 ^ 64 else x mod 2 ^ 64 - 2 ^ 64)"

definition bnd :: "fault + 'a \<Rightarrow> ('a \<Rightarrow> fault + 'b) \<Rightarrow> fault + 'b" where
  "bnd m f = (case m of Inl e \<Rightarrow> Inl e | Inr x \<Rightarrow> f x)"

lemma bnd_cong [fundef_cong]:
  "m = m' \<Longrightarrow> (\<And>x. m' = Inr x \<Longrightarrow> f x = f' x) \<Longrightarrow> bnd m f = bnd m' f'"
  by (cases m') (simp_all add: bnd_def)

definition block :: "mem \<Rightarrow> region \<Rightarrow> byte list option" where
  "block st r = (case r of Base \<Rightarrow> Some (base st) | Temp \<Rightarrow> temp st | Scratch \<Rightarrow> scratch st)"

definition set_block :: "mem \<Rightarrow> region \<Rightarrow> byte list \<Rightarrow> mem" where
  "set_block st r bs =
     (case r of Base \<Rightarrow> st\<lparr>base := bs\<rparr>
              | Temp \<Rightarrow> st\<lparr>temp := Some bs\<rparr>
              | Scratch \<Rightarrow> st\<lparr>scratch := Some bs\<rparr>)"

definition load :: "mem \<Rightarrow> ptr \<Rightarrow> nat \<Rightarrow> fault + byte list" where
  "load st p n =
     (case block st (fst p) of
        None \<Rightarrow> Inl NullPointer
      | Some bs \<Rightarrow>
          if 0 \<le> snd p \<and> snd p + int n \<le> int (length bs)
          then Inr (take n (drop (nat (snd p)) bs))
          else Inl OutOfRange)"

definition store :: "mem \<Rightarrow> ptr \<Rightarrow> byte list \<Rightarrow> fault + mem" where
  "store st p v =
     (case block st (fst p) of
        None \<Rightarrow> Inl NullPointer
      | Some bs \<Rightarrow>
          if 0 \<le> snd p \<and> snd p + int (length v) \<le> int (length bs)
          then Inr (set_block st (fst p)
                 (take (nat (snd p)) bs @ v @ drop (nat (snd p) + length v) bs))
          else Inl OutOfRange)"

text \<open>Pointer arithmetic: \<^verbatim>\<open>p + k\<close> on a byte pointer, and \<^verbatim>\<open>p[i]\<close> on a \<^verbatim>\<open>long *\<close>.\<close>

definition padd :: "ptr \<Rightarrow> int \<Rightarrow> ptr" where
  "padd p k = (fst p, snd p + k)"

definition long_at :: "ptr \<Rightarrow> nat \<Rightarrow> ptr" where
  "long_at p i = padd p (8 * int i)"

text \<open>\<^verbatim>\<open>malloc\<close>: the field \<open>heap\<close> is the largest request the allocator can serve; a
  larger one returns the null pointer, \<open>None\<close>. Fresh memory is modelled as zeroes; the
  routines write it before they read it.\<close>

definition malloc :: "mem \<Rightarrow> nat \<Rightarrow> byte list option" where
  "malloc st n = (if n \<le> heap st then Some (replicate n 0) else None)"

section \<open>Common utilities\<close>

text \<open>\<^verbatim>\<open>my_memcpy\<close>: asserts that the byte count is a multiple of 8, then copies longs.\<close>

function my_memcpy_loop :: "mem \<Rightarrow> ptr \<Rightarrow> ptr \<Rightarrow> nat \<Rightarrow> nat \<Rightarrow> fault + mem" where
  "my_memcpy_loop st dst src n i =
     (if i < n
      then bnd (load st (long_at src i) 8) (\<lambda>v.
           bnd (store st (long_at dst i) v) (\<lambda>st'.
           my_memcpy_loop st' dst src n (i + 1)))
      else Inr st)"
  by pat_completeness auto
termination
  by (relation "measure (\<lambda>(st, dst, src, n, i). n - i)") auto

declare my_memcpy_loop.simps [simp del]

definition my_memcpy :: "mem \<Rightarrow> ptr \<Rightarrow> ptr \<Rightarrow> nat \<Rightarrow> fault + mem" where
  "my_memcpy st to from n =
     (if n AND 7 \<noteq> 0 then Inl AssertionFailed
      else my_memcpy_loop st to from (drop_bit 3 n) 0)"

text \<open>\<^verbatim>\<open>swap\<close>: the loop counter \<^verbatim>\<open>i\<close> advances by \<^verbatim>\<open>sizeof(long)\<close> and indexes
  the \<^verbatim>\<open>long\<close> arrays \<^verbatim>\<open>p\<close> and \<^verbatim>\<open>q\<close>; the byte-wise branch is commented out.\<close>

function swap_loop :: "mem \<Rightarrow> ptr \<Rightarrow> ptr \<Rightarrow> nat \<Rightarrow> nat \<Rightarrow> fault + mem" where
  "swap_loop st p q sz i =
     (if i < sz
      then bnd (load st (long_at p i) 8) (\<lambda>t.
           bnd (load st (long_at q i) 8) (\<lambda>v.
           bnd (store st (long_at p i) v) (\<lambda>st1.
           bnd (store st1 (long_at q i) t) (\<lambda>st2.
           swap_loop st2 p q sz (i + 8)))))
      else Inr st)"
  by pat_completeness auto
termination
  by (relation "measure (\<lambda>(st, p, q, sz, i). sz - i)") auto

declare swap_loop.simps [simp del]

definition swap :: "mem \<Rightarrow> ptr \<Rightarrow> ptr \<Rightarrow> nat \<Rightarrow> fault + mem" where
  "swap st a b sz = (if sz mod 8 = 0 then swap_loop st a b sz 0 else Inr st)"

text \<open>A call of the comparator on two element pointers reads \<open>sz\<close> bytes at each.\<close>

definition compar_at :: "mem \<Rightarrow> compar \<Rightarrow> nat \<Rightarrow> ptr \<Rightarrow> ptr \<Rightarrow> fault + int" where
  "compar_at st compar sz p q =
     bnd (load st p sz) (\<lambda>a. bnd (load st q sz) (\<lambda>b. Inr (compar a b)))"

text \<open>The address of element \<open>i\<close> of an array of \<open>sz\<close>-byte elements: \<^verbatim>\<open>b + i * size\<close>.\<close>

definition eptr :: "ptr \<Rightarrow> int \<Rightarrow> nat \<Rightarrow> ptr" where
  "eptr b i sz = padd b (i * int sz)"

section \<open>Insertion sort\<close>

text \<open>The inner \<^verbatim>\<open>while (j >= 0 && compar(base + j * size, key) > 0)\<close> loop; it returns
  the memory and the final \<open>j\<close>.\<close>

function ins_shift :: "mem \<Rightarrow> compar \<Rightarrow> ptr \<Rightarrow> nat \<Rightarrow> int \<Rightarrow> fault + (mem \<times> int)" where
  "ins_shift st compar b sz j =
     (if j \<ge> 0
      then bnd (compar_at st compar sz (eptr b j sz) (Scratch, 0)) (\<lambda>c.
           if c > 0
           then bnd (my_memcpy st (eptr b (j + 1) sz) (eptr b j sz) sz) (\<lambda>st'.
                ins_shift st' compar b sz (j - 1))
           else Inr (st, j))
      else Inr (st, j))"
  by pat_completeness auto
termination
  by (relation "measure (\<lambda>(st, compar, b, sz, j). nat (j + 1))") auto

declare ins_shift.simps [simp del]

function ins_outer :: "mem \<Rightarrow> compar \<Rightarrow> ptr \<Rightarrow> nat \<Rightarrow> nat \<Rightarrow> nat \<Rightarrow> fault + mem" where
  "ins_outer st compar b nelem sz i =
     (if i < nelem
      then bnd (my_memcpy st (Scratch, 0) (eptr b (int i) sz) sz) (\<lambda>st1.
           bnd (ins_shift st1 compar b sz (int i - 1)) (\<lambda>(st2, j).
           bnd (my_memcpy st2 (eptr b (j + 1) sz) (Scratch, 0) sz) (\<lambda>st3.
           ins_outer st3 compar b nelem sz (i + 1))))
      else Inr st)"
  by pat_completeness auto
termination
  by (relation "measure (\<lambda>(st, compar, b, nelem, sz, i). nelem - i)") auto

declare ins_outer.simps [simp del]

text \<open>\<^verbatim>\<open>insertion_sort\<close>: \<^verbatim>\<open>key\<close> is the block \<open>Scratch\<close>, allocated on entry and
  freed on return; the result of \<^verbatim>\<open>malloc\<close> is not checked.\<close>

definition insertion_sort :: "mem \<Rightarrow> ptr \<Rightarrow> nat \<Rightarrow> nat \<Rightarrow> compar \<Rightarrow> fault + mem" where
  "insertion_sort st b nelem sz compar =
     bnd (ins_outer (st\<lparr>scratch := malloc st sz\<rparr>) compar b nelem sz 1) (\<lambda>st'.
     Inr (st'\<lparr>scratch := None\<rparr>))"

section \<open>Merge sort\<close>

text \<open>The two copy loops of \<^verbatim>\<open>p_merge\<close>: elements \<open>from + i\<close> for \<open>i < n\<close> go from
  \<^verbatim>\<open>base\<close> to \<^verbatim>\<open>temp\<close> at the same offsets.\<close>

function copy_to_temp :: "mem \<Rightarrow> nat \<Rightarrow> nat \<Rightarrow> nat \<Rightarrow> nat \<Rightarrow> fault + mem" where
  "copy_to_temp st sz from n i =
     (if i < n
      then bnd (my_memcpy st (eptr (Temp, 0) (int (i + from)) sz)
                             (eptr (Base, 0) (int (i + from)) sz) sz) (\<lambda>st'.
           copy_to_temp st' sz from n (i + 1))
      else Inr st)"
  by pat_completeness auto
termination
  by (relation "measure (\<lambda>(st, sz, from, n, i). n - i)") auto

declare copy_to_temp.simps [simp del]

text \<open>The merge step proper. On \<^verbatim>\<open>compar(temp + i * size, temp + j * size) > 0\<close> the
  right element is written, otherwise the left one.\<close>

function merge_loop ::
  "mem \<Rightarrow> compar \<Rightarrow> nat \<Rightarrow> nat \<Rightarrow> nat \<Rightarrow> nat \<Rightarrow> nat \<Rightarrow> nat \<Rightarrow> fault + (mem \<times> nat \<times> nat \<times> nat)" where
  "merge_loop st compar sz iend jend i j k =
     (if i < iend \<and> j < jend
      then bnd (compar_at st compar sz (eptr (Temp, 0) (int i) sz) (eptr (Temp, 0) (int j) sz)) (\<lambda>c.
           if c > 0
           then bnd (my_memcpy st (eptr (Base, 0) (int k) sz) (eptr (Temp, 0) (int j) sz) sz) (\<lambda>st'.
                merge_loop st' compar sz iend jend i (j + 1) (k + 1))
           else bnd (my_memcpy st (eptr (Base, 0) (int k) sz) (eptr (Temp, 0) (int i) sz) sz) (\<lambda>st'.
                merge_loop st' compar sz iend jend (i + 1) j (k + 1)))
      else Inr (st, i, j, k))"
  by pat_completeness auto
termination
  by (relation "measure (\<lambda>(st, compar, sz, iend, jend, i, j, k). (iend - i) + (jend - j))") auto

declare merge_loop.simps [simp del]

text \<open>The two tail loops: copy what is left of one half; returns the memory and \<open>k\<close>.\<close>

function copy_rest :: "mem \<Rightarrow> nat \<Rightarrow> nat \<Rightarrow> nat \<Rightarrow> nat \<Rightarrow> fault + (mem \<times> nat)" where
  "copy_rest st sz iend i k =
     (if i < iend
      then bnd (my_memcpy st (eptr (Base, 0) (int k) sz) (eptr (Temp, 0) (int i) sz) sz) (\<lambda>st'.
           copy_rest st' sz iend (i + 1) (k + 1))
      else Inr (st, k))"
  by pat_completeness auto
termination
  by (relation "measure (\<lambda>(st, sz, iend, i, k). iend - i)") auto

declare copy_rest.simps [simp del]

definition p_merge :: "mem \<Rightarrow> nat \<Rightarrow> compar \<Rightarrow> nat \<Rightarrow> nat \<Rightarrow> nat \<Rightarrow> fault + mem" where
  "p_merge st sz compar l r m =
     (let n1 = m - l + 1; n2 = r - m in
      bnd (copy_to_temp st sz l n1 0) (\<lambda>st1.
      bnd (copy_to_temp st1 sz (m + 1) n2 0) (\<lambda>st2.
      bnd (merge_loop st2 compar sz (n1 + l) (n2 + m + 1) l (m + 1) l) (\<lambda>(st3, i, j, k).
      bnd (copy_rest st3 sz (n1 + l) i k) (\<lambda>(st4, k').
      bnd (copy_rest st4 sz (n2 + m + 1) j k') (\<lambda>(st5, k''). Inr st5))))))"

function p_merge_sort ::
  "mem \<Rightarrow> nat \<Rightarrow> nat \<Rightarrow> compar \<Rightarrow> nat \<Rightarrow> nat \<Rightarrow> nat \<Rightarrow> fault + mem" where
  "p_merge_sort st nelem sz compar l r grain =
     (if r > l
      then if nelem > grain
           then let m = (l + r) div 2 in
                bnd (p_merge_sort st (m - l + 1) sz compar l m grain) (\<lambda>st1.
                bnd (p_merge_sort st1 (r - m) sz compar (m + 1) r grain) (\<lambda>st2.
                p_merge st2 sz compar l r m))
           else if nelem > 1
           then if nelem \<le> 32
                then insertion_sort st (eptr (Base, 0) (int l) sz) nelem sz compar
                else let m = (l + r) div 2 in
                     bnd (p_merge_sort st (m - l + 1) sz compar l m grain) (\<lambda>st1.
                     bnd (p_merge_sort st1 (r - m) sz compar (m + 1) r grain) (\<lambda>st2.
                     p_merge st2 sz compar l r m))
           else Inr st
      else Inr st)"
  by pat_completeness auto
termination
  by (relation "measure (\<lambda>(st, nelem, sz, compar, l, r, grain). r - l)") auto

declare p_merge_sort.simps [simp del]

section \<open>The library sort\<close>

text \<open>
  Modelled from the spec: \<^verbatim>\<open>qsort\<close> is the platform's library sort and no part of the
  repository (``any correct comparison sort; the reference implementation defers to the
  platform's library sort''). The function \<open>lib\<close> that sorts a list of elements under a
  comparator is a parameter of every routine that calls \<^verbatim>\<open>qsort\<close>; \<open>qsort\<close> applies
  it to the \<open>num\<close> elements of \<open>sz\<close> bytes at the given address.
\<close>

type_synonym sorter = "compar \<Rightarrow> byte list list \<Rightarrow> byte list list"

definition chunks :: "nat \<Rightarrow> nat \<Rightarrow> byte list \<Rightarrow> byte list list" where
  "chunks sz n bs = map (\<lambda>i. take sz (drop (i * sz) bs)) [0..<n]"

definition qsort :: "sorter \<Rightarrow> mem \<Rightarrow> ptr \<Rightarrow> nat \<Rightarrow> nat \<Rightarrow> compar \<Rightarrow> fault + mem" where
  "qsort lib st b num sz compar =
     (if num * sz = 0 then Inr st
      else bnd (load st b (num * sz)) (\<lambda>bs.
           store st b (concat (lib compar (chunks sz num bs)))))"

section \<open>Bitonic sort\<close>

text \<open>\<^verbatim>\<open>highestPowerofTwoLessThan\<close> on \<^verbatim>\<open>size_t\<close>, a 64-bit unsigned integer.\<close>

function hp2_loop :: "64 word \<Rightarrow> 64 word \<Rightarrow> 64 word" where
  "hp2_loop res n = (if res > 0 \<and> res < n then hp2_loop (push_bit 1 res) n else res)"
  by pat_completeness auto
termination
proof (relation "measure (\<lambda>(res, n). LEAST k. push_bit k res = 0)")
  fix res n :: "64 word"
  assume a: "0 < res \<and> res < n"
  have ex: "push_bit 64 res = 0" by simp
  have n0: "push_bit 0 res \<noteq> 0" using a by auto
  have "(LEAST k. push_bit k res = 0) = Suc (LEAST m. push_bit (Suc m) res = 0)"
    by (rule Least_Suc [of "\<lambda>k. push_bit k res = 0", OF ex n0])
  moreover have "\<And>m. push_bit (Suc m) res = push_bit m (push_bit 1 res)"
    by (simp add: push_bit_double mult.commute)
  ultimately show "((push_bit 1 res, n), (res, n)) \<in> measure (\<lambda>(res, n). LEAST k. push_bit k res = 0)"
    by simp
qed simp

declare hp2_loop.simps [simp del]

definition highestPowerofTwoLessThan :: "64 word \<Rightarrow> 64 word" where
  "highestPowerofTwoLessThan n = drop_bit 1 (hp2_loop 1 n)"

text \<open>The reversal loop of the descending leaf case:
  \<^verbatim>\<open>for (i = 0, j = num - 1; i < j; i++, j--) swap(base + (i + low) * size, base + (j + low) * size, size)\<close>.\<close>

function reverse_loop :: "mem \<Rightarrow> nat \<Rightarrow> nat \<Rightarrow> nat \<Rightarrow> nat \<Rightarrow> fault + mem" where
  "reverse_loop st low sz i j =
     (if i < j
      then bnd (swap st (eptr (Base, 0) (int (i + low)) sz) (eptr (Base, 0) (int (j + low)) sz) sz)
             (\<lambda>st'. reverse_loop st' low sz (i + 1) (j - 1))
      else Inr st)"
  by pat_completeness auto
termination
  by (relation "measure (\<lambda>(st, low, sz, i, j). j - i)") auto

declare reverse_loop.simps [simp del]

text \<open>The leaf case shared by \<^verbatim>\<open>p_bitonic_sort\<close> and \<^verbatim>\<open>p_bitonic_merge\<close>: library sort,
  then reversal when the direction is descending.\<close>

definition bitonic_leaf ::
  "sorter \<Rightarrow> mem \<Rightarrow> nat \<Rightarrow> nat \<Rightarrow> compar \<Rightarrow> bool \<Rightarrow> nat \<Rightarrow> fault + mem" where
  "bitonic_leaf lib st low num compar asec sz =
     bnd (qsort lib st (eptr (Base, 0) (int low) sz) num sz compar) (\<lambda>st1.
     if \<not> asec then reverse_loop st1 low sz 0 (num - 1) else Inr st1)"

text \<open>\<^verbatim>\<open>merge_worker\<close>: compare element \<open>i\<close> with element \<open>i + m\<close> for \<open>begin \<le> i < end\<close>
  and exchange them when they are out of order for the direction \<open>asec\<close>.\<close>

function merge_worker ::
  "mem \<Rightarrow> compar \<Rightarrow> bool \<Rightarrow> nat \<Rightarrow> nat \<Rightarrow> int \<Rightarrow> int \<Rightarrow> fault + mem" where
  "merge_worker st compar asec m sz i end =
     (if i < end
      then let left = eptr (Base, 0) i sz; right = eptr (Base, 0) (i + int m) sz in
           bnd (compar_at st compar sz left right) (\<lambda>c.
           bnd (if asec
                then (if c > 0 then swap st left right sz else Inr st)
                else (if c < 0 then swap st left right sz else Inr st)) (\<lambda>st'.
           merge_worker st' compar asec m sz (i + 1) end))
      else Inr st)"
  by pat_completeness auto
termination
  by (relation "measure (\<lambda>(st, compar, asec, m, sz, i, end). nat (end - i))") auto

declare merge_worker.simps [simp del]

text \<open>
  Modelled from the spec: \<^verbatim>\<open>emu_local_for\<close> is declared in \<^verbatim>\<open>emu_for_local.h\<close>, which
  is not among the sources (``a range-subdivision-apply primitive
  \<^verbatim>\<open>forEachInRange(start, end, grainSize, workerFn, ...context)\<close> that internally
  forks/joins down to \<^verbatim>\<open>grainSize\<close>''). In program order it is the worker applied to the
  whole range.
\<close>

definition emu_local_for ::
  "mem \<Rightarrow> int \<Rightarrow> int \<Rightarrow> nat \<Rightarrow> (mem \<Rightarrow> int \<Rightarrow> int \<Rightarrow> fault + mem) \<Rightarrow> fault + mem" where
  "emu_local_for st begin end grain worker = worker st begin end"

text \<open>The recursions of the bitonic sort do not terminate for \<open>grain = 0\<close> and
  \<open>num = 1\<close>; a run that does not return has the value \<open>None\<close>.\<close>

definition obnd ::
  "(fault + 'a) option \<Rightarrow> ('a \<Rightarrow> (fault + 'b) option) \<Rightarrow> (fault + 'b) option" where
  "obnd m f = Option.bind m (\<lambda>r. case r of Inl e \<Rightarrow> Some (Inl e) | Inr x \<Rightarrow> f x)"

lemma obnd_mono [partial_function_mono]:
  assumes mf: "mono_option B" and mg: "\<And>y. mono_option (\<lambda>f. C y f)"
  shows "mono_option (\<lambda>f. obnd (B f) (\<lambda>y. C y f))"
  unfolding obnd_def
proof (rule bind_mono [OF mf])
  fix y
  show "mono_option (\<lambda>f. case y of Inl e \<Rightarrow> Some (Inl e) | Inr x \<Rightarrow> C x f)"
    by (cases y) (simp_all add: mg option.const_mono)
qed

partial_function (option) p_bitonic_merge ::
  "sorter \<Rightarrow> mem \<Rightarrow> nat \<Rightarrow> nat \<Rightarrow> compar \<Rightarrow> bool \<Rightarrow> nat \<Rightarrow> nat \<Rightarrow> (fault + mem) option" where
  "p_bitonic_merge lib st low num compar asec sz grain =
     (if num > grain
      then let m = unat (highestPowerofTwoLessThan (of_nat num)) in
           obnd (Some (emu_local_for st (int low) (int (low + (num - m))) grain
                         (\<lambda>s b e. merge_worker s compar asec m sz b e))) (\<lambda>st1.
           obnd (p_bitonic_merge lib st1 low m compar asec sz grain) (\<lambda>st2.
           p_bitonic_merge lib st2 (low + m) (num - m) compar asec sz grain))
      else if num > 1
      then Some (bitonic_leaf lib st low num compar asec sz)
      else Some (Inr st))"

declare p_bitonic_merge.simps [code]

partial_function (option) p_bitonic_sort ::
  "sorter \<Rightarrow> mem \<Rightarrow> nat \<Rightarrow> nat \<Rightarrow> compar \<Rightarrow> bool \<Rightarrow> nat \<Rightarrow> nat \<Rightarrow> (fault + mem) option" where
  "p_bitonic_sort lib st low num compar asec sz grain =
     (if num > grain
      then let m = num div 2 in
           obnd (p_bitonic_sort lib st low m compar asec sz grain) (\<lambda>st1.
           obnd (p_bitonic_sort lib st1 (low + m) (num - m) compar (\<not> asec) sz grain) (\<lambda>st2.
           p_bitonic_merge lib st2 low num compar asec sz grain))
      else if num > 1
      then Some (bitonic_leaf lib st low num compar asec sz)
      else Some (Inr st))"

declare p_bitonic_sort.simps [code]

section \<open>Quick sort\<close>

text \<open>
  The two scans of the partition loop, \<^verbatim>\<open>while (compar(base + i * size, pivot) < 0) i++\<close>
  and \<^verbatim>\<open>while (compar(base + j * size, pivot) > 0) j--\<close>, have no bound of their own.
  The cursors are of type \<^verbatim>\<open>long\<close>: stepping past the ends of its range is undefined and
  reported as \<open>IntegerOverflow\<close>.
\<close>

function scan_up :: "mem \<Rightarrow> compar \<Rightarrow> nat \<Rightarrow> int \<Rightarrow> fault + int" where
  "scan_up st compar sz i =
     bnd (compar_at st compar sz (eptr (Base, 0) i sz) (Scratch, 0)) (\<lambda>c.
     if c < 0
     then (if i + 1 < 2 ^ 63 then scan_up st compar sz (i + 1) else Inl IntegerOverflow)
     else Inr i)"
  by pat_completeness auto
termination
  by (relation "measure (\<lambda>(st, compar, sz, i). nat (2 ^ 63 - i))") auto

declare scan_up.simps [simp del]

function scan_down :: "mem \<Rightarrow> compar \<Rightarrow> nat \<Rightarrow> int \<Rightarrow> fault + int" where
  "scan_down st compar sz j =
     bnd (compar_at st compar sz (eptr (Base, 0) j sz) (Scratch, 0)) (\<lambda>c.
     if c > 0
     then (if - (2 ^ 63) \<le> j - 1 then scan_down st compar sz (j - 1) else Inl IntegerOverflow)
     else Inr j)"
  by pat_completeness auto
termination
  by (relation "measure (\<lambda>(st, compar, sz, j). nat (j + 2 ^ 63))") auto

declare scan_down.simps [simp del]

lemma scan_up_ge: "scan_up st compar sz i = Inr i' \<Longrightarrow> i \<le> i'"
proof (induction st compar sz i rule: scan_up.induct)
  case (1 st compar sz i)
  from "1.prems" show ?case
    by (subst (asm) scan_up.simps)
       (auto simp: bnd_def split: sum.splits if_splits dest!: "1.IH" [rotated -1])
qed

lemma scan_down_le: "scan_down st compar sz j = Inr j' \<Longrightarrow> j' \<le> j"
proof (induction st compar sz j rule: scan_down.induct)
  case (1 st compar sz j)
  from "1.prems" show ?case
    by (subst (asm) scan_down.simps)
       (auto simp: bnd_def split: sum.splits if_splits dest!: "1.IH" [rotated -1])
qed

text \<open>The partition loop \<^verbatim>\<open>while (i <= j)\<close>. When the scans end with \<open>i > j\<close> the loop
  condition fails at once; the result is the memory with the final cursors.\<close>

function partition_loop :: "mem \<Rightarrow> compar \<Rightarrow> nat \<Rightarrow> int \<Rightarrow> int \<Rightarrow> fault + (mem \<times> int \<times> int)" where
  "partition_loop st compar sz i j =
     (if i \<le> j
      then bnd (scan_up st compar sz i) (\<lambda>i1.
           bnd (scan_down st compar sz j) (\<lambda>j1.
           if i1 \<le> j1
           then bnd (if i1 < j1
                     then swap st (eptr (Base, 0) i1 sz) (eptr (Base, 0) j1 sz) sz
                     else Inr st) (\<lambda>st'.
                partition_loop st' compar sz (i1 + 1) (j1 - 1))
           else Inr (st, i1, j1)))
      else Inr (st, i, j))"
  by pat_completeness auto
termination
proof (relation "measure (\<lambda>(st, compar, sz, i, j). nat (j - i + 1))")
  fix st :: mem and compar :: compar and sz :: nat and i j i1 j1 :: int and st' :: mem
  assume "scan_up st compar sz i = Inr i1" "scan_down st compar sz j = Inr j1" "i1 \<le> j1"
  then have "i \<le> i1" "j1 \<le> j" by (auto dest: scan_up_ge scan_down_le)
  with \<open>i1 \<le> j1\<close>
  show "((st', compar, sz, i1 + 1, j1 - 1), (st, compar, sz, i, j))
          \<in> measure (\<lambda>(st, compar, sz, i, j). nat (j - i + 1))"
    by simp
qed simp

declare partition_loop.simps [simp del]

text \<open>Median-of-three pivot selection on the pointers \<^verbatim>\<open>lo\<close>, \<^verbatim>\<open>mid\<close>, \<^verbatim>\<open>hi\<close>.\<close>

definition median3 :: "mem \<Rightarrow> compar \<Rightarrow> nat \<Rightarrow> ptr \<Rightarrow> ptr \<Rightarrow> ptr \<Rightarrow> fault + mem" where
  "median3 st compar sz lo mid hi =
     bnd (compar_at st compar sz mid lo) (\<lambda>c1.
     bnd (if c1 < 0 then swap st lo mid sz else Inr st) (\<lambda>st1.
     bnd (compar_at st1 compar sz hi mid) (\<lambda>c2.
     if c2 < 0
     then bnd (swap st1 mid hi sz) (\<lambda>st2.
          bnd (compar_at st2 compar sz mid lo) (\<lambda>c3.
          if c3 < 0 then swap st2 mid lo sz else Inr st2))
     else Inr st1)))"

text \<open>
  The part of \<^verbatim>\<open>p_quick_sort\<close> before its recursive calls. \<^verbatim>\<open>pivot\<close> is the block
  \<open>Scratch\<close>; it is not read after the partition loop and is released there.
  \<^verbatim>\<open>(hi - lo) / size\<close> divides a \<^verbatim>\<open>ptrdiff_t\<close> by a \<^verbatim>\<open>size_t\<close>: the difference is
  converted to \<^verbatim>\<open>size_t\<close> first (\<open>mod 2 ^ 64\<close>), and so is \<^verbatim>\<open>right - left\<close> in the
  comparison with \<^verbatim>\<open>grain\<close>.
\<close>

definition qs_partition :: "mem \<Rightarrow> nat \<Rightarrow> compar \<Rightarrow> int \<Rightarrow> int \<Rightarrow> fault + (mem \<times> int \<times> int)" where
  "qs_partition st sz compar left right =
     (let st0 = st\<lparr>scratch := Some (replicate sz 0)\<rparr>;
          lo = eptr (Base, 0) left sz;
          hi = eptr (Base, 0) right sz
      in if sz = 0 then Inl DivisionByZero
         else let mid = padd lo ((int sz *
                          ((snd hi - snd lo) mod 2 ^ 64 div int sz div 2)) mod 2 ^ 64)
      in bnd (median3 st0 compar sz lo mid hi) (\<lambda>st1.
         bnd (my_memcpy st1 (Scratch, 0) mid sz) (\<lambda>st2.
         bnd (partition_loop st2 compar sz left right) (\<lambda>(st3, i, j).
         Inr (st3\<lparr>scratch := None\<rparr>, i, j)))))"

text \<open>\<^verbatim>\<open>p_quick_sort\<close>. Both branches of \<^verbatim>\<open>if ((right - left) > grain)\<close> make the same two
  calls, spawned in the first and plain in the second.\<close>

partial_function (option) p_quick_sort ::
  "mem \<Rightarrow> nat \<Rightarrow> nat \<Rightarrow> compar \<Rightarrow> int \<Rightarrow> int \<Rightarrow> nat \<Rightarrow> (fault + mem) option" where
  "p_quick_sort st nelem sz compar left right grain =
     obnd (Some (qs_partition st sz compar left right)) (\<lambda>(st1, i, j).
     if (right - left) mod 2 ^ 64 > int grain
     then obnd (if left < j
                then p_quick_sort st1 (to_size_t (j - left + 1)) sz compar left j grain
                else Some (Inr st1)) (\<lambda>st2.
          if i < right
          then p_quick_sort st2 (to_size_t (right - i + 1)) sz compar i right grain
          else Some (Inr st2))
     else obnd (if left < j
                then p_quick_sort st1 (to_size_t (j - left + 1)) sz compar left j grain
                else Some (Inr st1)) (\<lambda>st2.
          if i < right
          then p_quick_sort st2 (to_size_t (right - i + 1)) sz compar i right grain
          else Some (Inr st2)))"

declare p_quick_sort.simps [code]

section \<open>Entry points\<close>

text \<open>The scratch array of the merge sort: \<^verbatim>\<open>malloc(size * num)\<close>, unchecked, freed on
  return.\<close>

definition merge_grain :: "nat \<Rightarrow> nat" where
  "merge_grain num = (if num > 128 then drop_bit 6 num else drop_bit 3 num)"

definition emu_sort_local :: "sorter \<Rightarrow> mem \<Rightarrow> nat \<Rightarrow> nat \<Rightarrow> compar \<Rightarrow> fault + mem" where
  "emu_sort_local lib st num sz compar =
     (if num \<ge> 32
      then bnd (p_merge_sort (st\<lparr>temp := malloc st (sz * num)\<rparr>) num sz compar 0 (num - 1)
                  (merge_grain num)) (\<lambda>st'.
           Inr (st'\<lparr>temp := None\<rparr>))
      else qsort lib st (Base, 0) num sz compar)"

definition emu_sort_local_bitonic ::
  "sorter \<Rightarrow> mem \<Rightarrow> nat \<Rightarrow> nat \<Rightarrow> compar \<Rightarrow> (fault + mem) option" where
  "emu_sort_local_bitonic lib st num sz compar =
     (if num \<ge> 32
      then p_bitonic_sort lib st 0 num compar True sz (drop_bit 5 num)
      else Some (qsort lib st (Base, 0) num sz compar))"

definition emu_sort_local_merge :: "mem \<Rightarrow> nat \<Rightarrow> nat \<Rightarrow> compar \<Rightarrow> fault + mem" where
  "emu_sort_local_merge st num sz compar =
     (if num > 1
      then bnd (p_merge_sort (st\<lparr>temp := malloc st (sz * num)\<rparr>) num sz compar 0 (num - 1)
                  (merge_grain num)) (\<lambda>st'.
           Inr (st'\<lparr>temp := None\<rparr>))
      else Inr st)"

definition emu_sort_local_quick :: "mem \<Rightarrow> nat \<Rightarrow> nat \<Rightarrow> compar \<Rightarrow> (fault + mem) option" where
  "emu_sort_local_quick st num sz compar =
     p_quick_sort st num sz compar 0 (to_long (int num - 1)) (drop_bit 3 num)"


section \<open>Specification vocabulary\<close>

text \<open>The bytes \<open>v\<close> written over \<open>bs\<close> from offset \<open>off\<close> on: what a store does to a block.\<close>

definition upd_bytes :: "'a list \<Rightarrow> nat \<Rightarrow> 'a list \<Rightarrow> 'a list" where
  "upd_bytes bs off v = take off bs @ v @ drop (off + length v) bs"

text \<open>The \<^verbatim>\<open>long\<close> at index \<open>k\<close> from pointer \<open>p\<close> lies inside its block.\<close>

definition long_in_bounds :: "mem \<Rightarrow> ptr \<Rightarrow> nat \<Rightarrow> bool" where
  "long_in_bounds st p k = (case block st (fst p) of None \<Rightarrow> False
     | Some bs \<Rightarrow> 0 \<le> snd p + 8 * int k \<and> snd p + 8 * int k + 8 \<le> int (length bs))"


text \<open>The array as a list of elements: the block is \<open>concat xs\<close> for a list \<open>xs\<close> of
  elements that all have \<open>sz\<close> bytes.\<close>

definition uniform :: "nat \<Rightarrow> 'a list list \<Rightarrow> bool" where
  "uniform sz xs = (\<forall>x\<in>set xs. length x = sz)"

text \<open>A valid comparator: the sign of \<open>c a b\<close> is opposite to the sign of \<open>c b a\<close>, and
  \<open>c a b \<le> 0\<close> is transitive. Elements with \<open>c a b = 0\<close> compare equal; they may differ in
  their bytes.\<close>

definition valid_compar :: "compar \<Rightarrow> bool" where
  "valid_compar c = ((\<forall>a b. (c a b > 0) = (c b a < 0)) \<and>
                     (\<forall>a b d. c a b \<le> 0 \<longrightarrow> c b d \<le> 0 \<longrightarrow> c a d \<le> 0))"

text \<open>Non-decreasing under the comparator.\<close>

definition sorted_by :: "compar \<Rightarrow> byte list list \<Rightarrow> bool" where
  "sorted_by c xs = sorted_wrt (\<lambda>a b. c a b \<le> 0) xs"

text \<open>Stability: the elements that compare equal to any given \<open>z\<close> occur in \<open>out\<close> in the
  order in which they occur in \<open>inp\<close>.\<close>

definition stable_of :: "compar \<Rightarrow> byte list list \<Rightarrow> byte list list \<Rightarrow> bool" where
  "stable_of c inp out = (\<forall>z. filter (\<lambda>y. c z y = 0) out = filter (\<lambda>y. c z y = 0) inp)"

text \<open>The list that the three loops of \<^verbatim>\<open>p_merge\<close> write, as a function of the two halves:
  the right element is taken on \<open>c x y > 0\<close>, the left one otherwise.\<close>

fun merged :: "compar \<Rightarrow> byte list list \<Rightarrow> byte list list \<Rightarrow> byte list list" where
  "merged c [] ys = ys"
| "merged c xs [] = xs"
| "merged c (x # xs) (y # ys) =
     (if c x y > 0 then y # merged c (x # xs) ys else x # merged c xs (y # ys))"

text \<open>The scratch array after the copy loops of \<^verbatim>\<open>p_merge\<close>: positions \<open>a \<le> k < b\<close> hold
  the elements of the array, the others are as before.\<close>

definition overlay :: "'a list \<Rightarrow> 'a list \<Rightarrow> nat \<Rightarrow> nat \<Rightarrow> 'a list" where
  "overlay T B a b = map (\<lambda>k. if a \<le> k \<and> k < b then B ! k else T ! k) [0..<length T]"

text \<open>The merge loop of \<^verbatim>\<open>p_merge\<close> followed by its two tail loops.\<close>

definition merge_tail ::
  "mem \<Rightarrow> compar \<Rightarrow> nat \<Rightarrow> nat \<Rightarrow> nat \<Rightarrow> nat \<Rightarrow> nat \<Rightarrow> nat \<Rightarrow> fault + mem" where
  "merge_tail st c sz iend jend i j k =
     bnd (merge_loop st c sz iend jend i j k) (\<lambda>(st3, i, j, k).
     bnd (copy_rest st3 sz iend i k) (\<lambda>(st4, k').
     bnd (copy_rest st4 sz jend j k') (\<lambda>(st5, k''). Inr st5)))"

text \<open>The bytes of a block after the 8 bytes at offset \<open>pa\<close> and the 8 bytes at offset \<open>pb\<close>
  have changed places.\<close>

definition xch8 :: "'a list \<Rightarrow> nat \<Rightarrow> nat \<Rightarrow> 'a list" where
  "xch8 bs pa pb = map (\<lambda>x. if pa \<le> x \<and> x < pa + 8 then bs ! (x - pa + pb)
                            else if pb \<le> x \<and> x < pb + 8 then bs ! (x - pb + pa)
                            else bs ! x) [0..<length bs]"

text \<open>What the loop of \<^verbatim>\<open>swap\<close> does for a size that is a multiple of 8: for
  \<open>k = 0, 1, \<dots>, sz div 8 - 1\<close> the counter is \<open>i = 8 * k\<close> and \<^verbatim>\<open>p[i]\<close>, \<^verbatim>\<open>q[i]\<close> are the
  longs at byte offset \<open>8 * i = 64 * k\<close> from the two pointers.\<close>

definition long_swaps :: "'a list \<Rightarrow> nat \<Rightarrow> nat \<Rightarrow> nat \<Rightarrow> 'a list" where
  "long_swaps bs oa ob sz =
     foldl (\<lambda>bs k. xch8 bs (oa + 64 * k) (ob + 64 * k)) bs [0..<sz div 8]"

text \<open>The byte \<open>x\<close> belongs to one of the longs \<^verbatim>\<open>p[0]\<close>, \<^verbatim>\<open>p[8]\<close>, \<dots>, \<^verbatim>\<open>p[sz - 8]\<close> of a
  \<^verbatim>\<open>long\<close> pointer at byte offset \<open>p\<close>.\<close>

definition in_longs :: "nat \<Rightarrow> nat \<Rightarrow> nat \<Rightarrow> bool" where
  "in_longs p sz x = (p \<le> x \<and> (x - p) mod 64 < 8 \<and> (x - p) div 64 < sz div 8)"

text \<open>No long reached from the first pointer overlaps a long reached from the second.\<close>

definition longs_apart :: "nat \<Rightarrow> nat \<Rightarrow> nat \<Rightarrow> bool" where
  "longs_apart oa ob sz =
     (\<forall>k\<in>set [0..<sz div 8]. \<forall>j\<in>set [0..<sz div 8].
        oa + 64 * k + 8 \<le> ob + 64 * j \<or> ob + 64 * j + 8 \<le> oa + 64 * k)"

text \<open>A sequence of calls of \<^verbatim>\<open>swap\<close> with the given pairs of pointers.\<close>

fun swaps_along :: "nat \<Rightarrow> (ptr \<times> ptr) list \<Rightarrow> mem \<Rightarrow> fault + mem" where
  "swaps_along sz [] st = Inr st"
| "swaps_along sz ((a, b) # ps) st = bnd (swap st a b sz) (swaps_along sz ps)"

text \<open>The list with the elements at the indices \<open>a..b\<close> in reverse order.\<close>

definition rev_range :: "'a list \<Rightarrow> nat \<Rightarrow> nat \<Rightarrow> 'a list" where
  "rev_range B a b = map (\<lambda>k. if a \<le> k \<and> k \<le> b then B ! (a + b - k) else B ! k) [0..<length B]"

text \<open>A compare-and-swap pass on a list of elements: for \<open>i\<close> from \<open>i\<close> to \<open>e - 1\<close>, the
  elements \<open>i\<close> and \<open>i + m\<close> change places when they are out of order for the direction
  \<open>asec\<close>.\<close>

function cas_pass :: "compar \<Rightarrow> bool \<Rightarrow> nat \<Rightarrow> byte list list \<Rightarrow> nat \<Rightarrow> nat \<Rightarrow> byte list list" where
  "cas_pass c asec m B i e =
     (if i < e
      then cas_pass c asec m
             (if (if asec then c (B ! i) (B ! (i + m)) > 0 else c (B ! i) (B ! (i + m)) < 0)
              then B[i := B ! (i + m), i + m := B ! i] else B) (i + 1) e
      else B)"
  by pat_completeness auto
termination
  by (relation "measure (\<lambda>(c, asec, m, B, i, e). e - i)") auto

declare cas_pass.simps [simp del]

text \<open>The partition loop with pivot \<open>p\<close> on the range \<open>left..right\<close>: everything before the
  cursor \<open>i\<close> compares \<open>\<le>\<close> the pivot and everything from \<open>jn\<close> on (the cursor \<open>j\<close> is
  \<open>jn - 1\<close>) compares \<open>\<ge>\<close> the pivot.\<close>

definition part_inv :: "compar \<Rightarrow> byte list \<Rightarrow> nat \<Rightarrow> nat \<Rightarrow> byte list list \<Rightarrow> nat \<Rightarrow> nat \<Rightarrow> bool" where
  "part_inv c p left right B i jn =
     (left \<le> i \<and> i \<le> right + 1 \<and> left \<le> jn \<and> jn \<le> right + 1 \<and>
      (\<forall>k. left \<le> k \<and> k < i \<longrightarrow> c (B ! k) p \<le> 0) \<and>
      (\<forall>k. jn \<le> k \<and> k \<le> right \<longrightarrow> 0 \<le> c (B ! k) p))"


text \<open>The array \<open>Bm\<close> after the median-of-three selection on the indices \<open>left\<close>, \<open>m\<close>,
  \<open>right\<close> of \<open>B\<close>: the same elements, changed at these three indices only, and in order
  there.\<close>

definition med_post :: "compar \<Rightarrow> byte list list \<Rightarrow> byte list list \<Rightarrow> nat \<Rightarrow> nat \<Rightarrow> nat \<Rightarrow> bool" where
  "med_post c B Bm left m right =
     (mset Bm = mset B \<and> length Bm = length B \<and>
      (\<forall>k. k \<noteq> left \<and> k \<noteq> m \<and> k \<noteq> right \<longrightarrow> Bm ! k = B ! k) \<and>
      c (Bm ! left) (Bm ! m) \<le> 0 \<and> c (Bm ! m) (Bm ! right) \<le> 0)"

text \<open>What is assumed of the library sort: under a valid comparator its result is sorted
  and a permutation of its argument.\<close>

definition sorts :: "sorter \<Rightarrow> bool" where
  "sorts lib = (\<forall>c xs. valid_compar c \<longrightarrow> sorted_by c (lib c xs) \<and> mset (lib c xs) = mset xs)"

section \<open>Test data\<close>

text \<open>A memory that holds the caller's array only.\<close>

definition mem_of :: "byte list \<Rightarrow> mem" where
  "mem_of bs = \<lparr>base = bs, temp = None, scratch = None, heap = 4096\<rparr>"

text \<open>A comparator that orders elements by their first byte, so that elements with
  different bytes can compare equal; \<open>el k t\<close> is the 8-byte element with key \<open>k\<close> and
  tag \<open>t\<close>.\<close>

definition key_of :: "byte list \<Rightarrow> int" where
  "key_of a = (case a of [] \<Rightarrow> 0 | x # _ \<Rightarrow> uint x)"

definition cmp_first :: compar where
  "cmp_first a b = key_of a - key_of b"

definition el :: "byte \<Rightarrow> byte \<Rightarrow> byte list" where
  "el k t = [k, t, 0, 0, 0, 0, 0, 0]"

text \<open>A library sort for the test runs: insertion into a sorted list.\<close>

fun lib_insert :: "compar \<Rightarrow> byte list \<Rightarrow> byte list list \<Rightarrow> byte list list" where
  "lib_insert c x [] = [x]"
| "lib_insert c x (y # ys) = (if c x y < 0 then x # y # ys else y # lib_insert c x ys)"

definition lib_sort :: sorter where
  "lib_sort c xs = foldr (lib_insert c) xs []"

section \<open>Memory and copy lemmas\<close>

lemma length_upd_bytes [simp]: "off + length v \<le> length bs \<Longrightarrow> length (upd_bytes bs off v) = length bs"
  by (simp add: upd_bytes_def)

lemma upd_bytes_nil [simp]: "upd_bytes bs off [] = bs"
  by (simp add: upd_bytes_def)

lemma upd_bytes_window:
  "a + m \<le> off \<or> off + length w \<le> a \<Longrightarrow> off + length w \<le> length bs \<Longrightarrow>
   take m (drop a (upd_bytes bs off w)) = take m (drop a bs)"
  by (auto simp: upd_bytes_def min_def drop_take)

lemma upd_bytes_append:
  "off + length w1 + length w2 \<le> length bs \<Longrightarrow>
   upd_bytes (upd_bytes bs off w1) (off + length w1) w2 = upd_bytes bs off (w1 @ w2)"
proof -
  assume a: "off + length w1 + length w2 \<le> length bs"
  then have "min (length bs) off = off" by simp
  then show ?thesis using a
    by (simp add: upd_bytes_def ac_simps)
qed

lemma bnd_Inr [simp]: "bnd (Inr x) f = f x" by (simp add: bnd_def)
lemma bnd_Inl [simp]: "bnd (Inl e) f = Inl e" by (simp add: bnd_def)

lemma load_ok:
  "block st r = Some bs \<Longrightarrow> off + n \<le> length bs \<Longrightarrow> load st (r, int off) n = Inr (take n (drop off bs))"
  by (simp add: load_def)

lemma store_ok:
  "block st r = Some bs \<Longrightarrow> off + length v \<le> length bs \<Longrightarrow>
   store st (r, int off) v = Inr (set_block st r (upd_bytes bs off v))"
  by (simp add: store_def upd_bytes_def)

lemma block_set_block: "block (set_block st r bs) r' = (if r' = r then Some bs else block st r')"
  by (cases r; cases r') (simp_all add: block_def set_block_def)

lemma set_block_twice [simp]: "set_block (set_block st r bs) r bs' = set_block st r bs'"
  by (cases r) (simp_all add: set_block_def)

lemma set_block_same: "block st r = Some bs \<Longrightarrow> set_block st r bs = st"
  by (cases r) (auto simp: set_block_def block_def)

lemma long_at_simp [simp]: "long_at (r, int off) i = (r, int (off + 8 * i))"
  by (simp add: long_at_def padd_def)

lemma my_memcpy_loop_ok:
  assumes "block st0 rs = Some S" "block st0 rd = Some D"
    "so + 8 * n \<le> length S" "do + 8 * n \<le> length D"
    "rs \<noteq> rd \<or> so + 8 * n \<le> do \<or> do + 8 * n \<le> so" "i \<le> n"
    "st = set_block st0 rd (upd_bytes D do (take (8 * i) (take (8 * n) (drop so S))))"
  shows "my_memcpy_loop st (rd, int do) (rs, int so) n i =
         Inr (set_block st0 rd (upd_bytes D do (take (8 * n) (drop so S))))"
  using assms(6,7)
proof (induction "n - i" arbitrary: i st)
  case 0
  then have "i = n" by simp
  with 0 show ?case
    by (subst my_memcpy_loop.simps) simp
next
  case (Suc d)
  then have lt: "i < n" by simp
  define V where "V = take (8 * n) (drop so S)"
  have lV: "length V = 8 * n" using assms(3) by (simp add: V_def)
  define Di where "Di = upd_bytes D do (take (8 * i) V)"
  have lDi: "length Di = length D" using assms(4) lt lV by (simp add: Di_def)
  have st: "st = set_block st0 rd Di" using Suc.prems by (simp add: Di_def V_def)
  define v where "v = take 8 (drop (8 * i) V)"
  have lv: "length v = 8" using lV lt by (simp add: v_def)
  have SD: "rs = rd \<Longrightarrow> S = D" using assms(1,2) by simp
  have srcwin: "take 8 (drop (so + 8 * i) S) = v"
    using lt assms(3) by (simp add: v_def V_def take_drop add.commute min_def)
  have bs: "block st rs = Some (if rs = rd then Di else S)"
    using assms(1) by (simp add: st block_set_block)
  have "take 8 (drop (so + 8 * i) (if rs = rd then Di else S)) = v"
  proof (cases "rs = rd")
    case True
    have "take 8 (drop (so + 8 * i) Di) = take 8 (drop (so + 8 * i) D)"
      unfolding Di_def using True assms(4,5) lt lV
      by (intro upd_bytes_window) auto
    then show ?thesis using True SD srcwin by simp
  next
    case False
    then show ?thesis using srcwin by simp
  qed
  then have ld: "load st (rs, int (so + 8 * i)) 8 = Inr v"
    using load_ok [OF bs, of "so + 8 * i" 8] assms(3) lt lDi SD by (auto split: if_splits)
  have bd: "block st rd = Some Di" by (simp add: st block_set_block)
  have sto: "store st (rd, int (do + 8 * i)) v = Inr (set_block st rd (upd_bytes Di (do + 8 * i) v))"
    using store_ok [OF bd, of "do + 8 * i" v] lv lDi assms(4) lt by simp
  have "upd_bytes Di (do + 8 * i) v = upd_bytes D do (take (8 * i) V @ v)"
    unfolding Di_def using upd_bytes_append [of "do" "take (8 * i) V" v D] lV lt lv assms(4)
    by (simp add: min_def)
  moreover have "take (8 * i) V @ v = take (8 * Suc i) V"
    unfolding v_def by (simp add: take_add [symmetric] add.commute)
  ultimately have nxt: "set_block st rd (upd_bytes Di (do + 8 * i) v)
      = set_block st0 rd (upd_bytes D do (take (8 * Suc i) (take (8 * n) (drop so S))))"
    by (simp add: st V_def)
  have d: "d = n - Suc i" using Suc.hyps by simp
  have IH: "my_memcpy_loop (set_block st rd (upd_bytes Di (do + 8 * i) v)) (rd, int do) (rs, int so) n (Suc i) =
     Inr (set_block st0 rd (upd_bytes D do (take (8 * n) (drop so S))))"
    using Suc.hyps(1) [OF d _ nxt] lt by simp
  show ?case
    apply (subst my_memcpy_loop.simps)
    using lt ld sto IH by simp
qed

lemma and7: "(n::nat) AND 7 = n mod 8"
proof -
  have "mask 3 = (7::nat)" by (simp add: mask_eq_exp_minus_1)
  then have "n AND 7 = take_bit 3 n" by (simp add: take_bit_eq_mask)
  then show ?thesis by (simp add: take_bit_eq_mod)
qed

lemma my_memcpy_ok:
  assumes "block st rs = Some S" "block st rd = Some D"
    "so + n \<le> length S" "do + n \<le> length D"
    "rs \<noteq> rd \<or> so + n \<le> do \<or> do + n \<le> so" "n mod 8 = 0"
  shows "my_memcpy st (rd, int do) (rs, int so) n =
         Inr (set_block st rd (upd_bytes D do (take n (drop so S))))"
proof -
  have n: "8 * (n div 8) = n" using assms(6) by auto
  have "my_memcpy_loop st (rd, int do) (rs, int so) (n div 8) 0 =
         Inr (set_block st rd (upd_bytes D do (take (8 * (n div 8)) (drop so S))))"
    using assms by (intro my_memcpy_loop_ok) (simp_all add: n set_block_same)
  then show ?thesis using assms(6)
    by (simp add: my_memcpy_def and7 drop_bit_eq_div n)
qed

lemma my_memcpy_assert: "n mod 8 \<noteq> 0 \<Longrightarrow> my_memcpy st dst src n = Inl AssertionFailed"
  by (simp add: my_memcpy_def and7)

lemma swap_layout:
  assumes "oa + 8 \<le> ob" "ob + 8 \<le> length (B::'a list)"
  shows "upd_bytes (upd_bytes B oa (take 8 (drop ob B))) ob (take 8 (drop oa B)) =
      take oa B @ (take 8 (drop ob B)) @ take (ob - (oa + 8)) (drop (oa + 8) B) @ (take 8 (drop oa B)) @ drop (ob + 8) B"
proof -
  have l: "length (take 8 (drop ob B)) = 8" "length (take 8 (drop oa B)) = 8" using assms by auto
  have "upd_bytes B oa (take 8 (drop ob B)) = take oa B @ take 8 (drop ob B) @ drop (oa + 8) B"
    by (simp only: upd_bytes_def l)
  moreover have "length (take oa B @ take 8 (drop ob B)) = oa + 8" using assms by simp
  ultimately have "take ob (upd_bytes B oa (take 8 (drop ob B))) = take oa B @ take 8 (drop ob B) @ take (ob - (oa + 8)) (drop (oa + 8) B)"
    using assms by simp
  moreover have "drop (ob + 8) (upd_bytes B oa (take 8 (drop ob B))) = drop (ob + 8) B"
    using assms by (simp add: upd_bytes_def)
  ultimately show ?thesis
    unfolding upd_bytes_def [of "upd_bytes B oa (take 8 (drop ob B))"] by (simp only: l append_assoc)
qed

lemma swap_unaligned: "sz mod 8 \<noteq> 0 \<Longrightarrow> swap st a b sz = Inr st"
  by (simp add: swap_def)

lemma swap8_base:
  assumes "oa + 8 \<le> ob" "ob + 8 \<le> length (base st)"
  shows "swap st (Base, int oa) (Base, int ob) 8 =
         Inr (st\<lparr>base := take oa (base st) @ take 8 (drop ob (base st)) @
                          take (ob - (oa + 8)) (drop (oa + 8) (base st)) @
                          take 8 (drop oa (base st)) @ drop (ob + 8) (base st)\<rparr>)"
proof -
  let ?B = "base st"
  let ?t = "take 8 (drop oa ?B)" and ?v = "take 8 (drop ob ?B)"
  have b: "block st Base = Some ?B" by (simp add: block_def)
  have l1: "load st (Base, int oa) 8 = Inr ?t"
    using load_ok [OF b, of oa 8] assms by simp
  have l2: "load st (Base, int ob) 8 = Inr ?v"
    using load_ok [OF b, of ob 8] assms by simp
  let ?st1 = "set_block st Base (upd_bytes ?B oa ?v)"
  have s1: "store st (Base, int oa) ?v = Inr ?st1"
    using store_ok [OF b, of oa ?v] assms by simp
  have b1: "block ?st1 Base = Some (upd_bytes ?B oa ?v)" by (simp add: block_set_block)
  have s2: "store ?st1 (Base, int ob) ?t = Inr (set_block st Base (upd_bytes (upd_bytes ?B oa ?v) ob ?t))"
    using store_ok [OF b1, of ob ?t] assms by simp
  have fin: "swap_loop (set_block st Base (upd_bytes (upd_bytes ?B oa ?v) ob ?t)) (Base, int oa) (Base, int ob) 8 8
            = Inr (set_block st Base (upd_bytes (upd_bytes ?B oa ?v) ob ?t))"
    by (subst swap_loop.simps) simp
  have "swap_loop st (Base, int oa) (Base, int ob) 8 0 = Inr (set_block st Base (upd_bytes (upd_bytes ?B oa ?v) ob ?t))"
    by (subst swap_loop.simps) (simp add: l1 l2 s1 s2 fin)
  moreover have "upd_bytes (upd_bytes ?B oa ?v) ob ?t =
      take oa ?B @ ?v @ take (ob - (oa + 8)) (drop (oa + 8) ?B) @ ?t @ drop (ob + 8) ?B"
    using assms by (rule swap_layout)
  ultimately show ?thesis by (simp add: swap_def set_block_def)
qed

lemma load_Inr_iff: "load st p n = Inr v \<Longrightarrow>
   (\<exists>bs. block st (fst p) = Some bs \<and> 0 \<le> snd p \<and> snd p + int n \<le> int (length bs))"
  by (auto simp: load_def split: option.splits if_splits)

lemma load8_long_in_bounds: "load st (long_at p k) 8 = Inr v \<Longrightarrow> long_in_bounds st p k"
  by (drule load_Inr_iff) (auto simp: long_in_bounds_def long_at_def padd_def)

lemma store_block_length:
  "store st p v = Inr st' \<Longrightarrow> map_option length (block st' r) = map_option length (block st r)"
  by (auto simp: store_def block_set_block split: option.splits if_splits)

lemma store_long_in_bounds: "store st p v = Inr st' \<Longrightarrow> long_in_bounds st' q k = long_in_bounds st q k"
  using store_block_length [of st p v st' "fst q"]
  by (auto simp: long_in_bounds_def split: option.splits)

lemma swap_loop_access:
  "swap_loop st p q sz i = Inr st' \<Longrightarrow> i \<le> k \<Longrightarrow> k < sz \<Longrightarrow> (k - i) mod 8 = 0 \<Longrightarrow>
     long_in_bounds st p k \<and> long_in_bounds st q k"
proof (induction st p q sz i rule: swap_loop.induct)
  case (1 st p q sz i)
  have lt: "i < sz" using "1.prems" by simp
  from "1.prems"(1) lt obtain t v st1 st2 where
    l1: "load st (long_at p i) 8 = Inr t" and l2: "load st (long_at q i) 8 = Inr v" and
    s1: "store st (long_at p i) v = Inr st1" and s2: "store st1 (long_at q i) t = Inr st2" and
    rec: "swap_loop st2 p q sz (i + 8) = Inr st'"
    by (subst (asm) swap_loop.simps) (auto simp: bnd_def split: sum.splits)
  show ?case
  proof (cases "k = i")
    case True
    then show ?thesis using l1 l2 by (auto dest: load8_long_in_bounds)
  next
    case False
    then have "i + 8 \<le> k \<and> (k - (i + 8)) mod 8 = 0" using "1.prems"(2,4)
      by presburger
    then have "long_in_bounds st2 p k \<and> long_in_bounds st2 q k"
      using "1.IH" [OF lt l1 l2 s1 s2 rec] "1.prems"(3) by simp
    then show ?thesis using s1 s2 by (simp add: store_long_in_bounds)
  qed
qed

lemma swap_wide_access:
  assumes "sz mod 8 = 0" "8 < sz" "swap st a b sz = Inr st'"
  shows "long_in_bounds st a (sz - 8) \<and> long_in_bounds st b (sz - 8)"
proof -
  have "swap_loop st a b sz 0 = Inr st'" using assms by (simp add: swap_def)
  moreover have "(sz - 8 - 0) mod 8 = 0" using assms(1,2) by presburger
  ultimately show ?thesis using assms(2) by (intro swap_loop_access [where i = 0]) auto
qed

section \<open>The power-of-two helper\<close>

lemma drop_bit_p2: "n \<le> 62 \<Longrightarrow> drop_bit 1 ((2::64 word) ^ Suc n) = 2 ^ n"
  by (rule bit_word_eqI) (auto simp: bit_simps simp del: power_Suc)

lemma p2_pos: "k < 64 \<Longrightarrow> (0::64 word) < 2 ^ k"
  by (simp add: word_greater_zero_iff)


lemma hp2_loop_pow:
  "k < 63 \<Longrightarrow> (2::64 word) ^ k < n \<Longrightarrow> n \<le> 2 ^ 63 \<Longrightarrow>
     \<exists>j. k < j \<and> j \<le> 63 \<and> hp2_loop (2 ^ k) n = 2 ^ j \<and> 2 ^ (j - 1) < n \<and> n \<le> 2 ^ j"
proof (induction "63 - k" arbitrary: k)
  case 0
  then show ?case by simp
next
  case (Suc d)
  have pos: "(0::64 word) < 2 ^ k" using Suc.prems by (simp add: p2_pos)
  have step: "hp2_loop (2 ^ k) n = hp2_loop (2 ^ Suc k) n"
    using pos Suc.prems(2) by (subst hp2_loop.simps) (simp add: push_bit_eq_mult mult.commute)
  show ?case
  proof (cases "(2::64 word) ^ Suc k < n")
    case True
    have "Suc k < 63"
    proof (rule ccontr)
      assume "\<not> Suc k < 63"
      then have "Suc k = 63" using Suc.prems(1) by simp
      then show False using True Suc.prems(3) by simp
    qed
    moreover have "d = 63 - Suc k" using Suc.hyps(2) by simp
    ultimately obtain j where "Suc k < j" "j \<le> 63" "hp2_loop (2 ^ Suc k) n = 2 ^ j"
      "2 ^ (j - 1) < n" "n \<le> 2 ^ j"
      using Suc.hyps(1) [of "Suc k"] True Suc.prems(3) by blast
    then show ?thesis using step by (intro exI [of _ j]) simp
  next
    case False
    have "hp2_loop (2 ^ Suc k) n = 2 ^ Suc k"
      using False by (subst hp2_loop.simps) simp
    then show ?thesis using step False Suc.prems
      by (intro exI [of _ "Suc k"]) simp
  qed
qed


lemma hp2_main:
  assumes "2 \<le> n" "n \<le> 2 ^ 63"
  shows "\<exists>k<63. highestPowerofTwoLessThan n = 2 ^ k \<and> 2 ^ k < n \<and> n \<le> 2 ^ (k + 1)"
proof -
  have "(2::64 word) ^ 0 < n" using assms(1) by (simp add: word_less_nat_alt word_le_nat_alt)
  from hp2_loop_pow [OF _ this assms(2)]
  obtain j where j: "0 < j" "j \<le> 63" "hp2_loop 1 n = 2 ^ j" "2 ^ (j - 1) < n" "n \<le> 2 ^ j"
    by auto
  obtain j' where j': "j = Suc j'" using j(1) by (cases j) auto
  have "drop_bit 1 ((2::64 word) ^ j) = 2 ^ (j - 1)"
    using j(2) drop_bit_p2 [of j'] unfolding j' by simp
  then show ?thesis using j
    by (intro exI [of _ "j - 1"]) (simp add: highestPowerofTwoLessThan_def)
qed

lemma unat_p2: "k < 64 \<Longrightarrow> unat ((2::64 word) ^ k) = 2 ^ k"
proof -
  assume k: "k < 64"
  have "(2::64 word) ^ k = of_nat (2 ^ k)" by simp
  moreover have "(2::nat) ^ k < 2 ^ 64" using k by (intro power_strict_increasing) auto
  ultimately show ?thesis by (simp only: unat_of_nat) simp
qed

lemma hp2_nat:
  assumes "2 \<le> num" "num \<le> 2 ^ 63"
  shows "\<exists>k<63. unat (highestPowerofTwoLessThan (of_nat num)) = 2 ^ k \<and> 2 ^ k < num \<and> num \<le> 2 ^ (k + 1)"
proof -
  have un: "unat (of_nat num :: 64 word) = num"
    using assms(2) by (simp add: unat_of_nat)
  have "(2 :: 64 word) \<le> of_nat num" using assms(1) un by (simp add: word_le_nat_alt)
  moreover have "(of_nat num :: 64 word) \<le> 2 ^ 63" using assms(2) un by (simp add: word_le_nat_alt)
  ultimately obtain k where k: "k < 63" "highestPowerofTwoLessThan (of_nat num) = 2 ^ k"
     "(2::64 word) ^ k < of_nat num" "(of_nat num :: 64 word) \<le> 2 ^ (k + 1)"
    using hp2_main by blast
  have "unat (highestPowerofTwoLessThan (of_nat num)) = 2 ^ k" using k(1,2) by (simp add: unat_p2)
  moreover have "2 ^ k < num" using k(1,3) un unat_p2 [of k] by (simp add: word_less_nat_alt)
  moreover have "num \<le> 2 ^ (k + 1)" using k(1,4) un unat_p2 [of "k + 1"] by (simp add: word_le_nat_alt)
  ultimately show ?thesis using k(1) by blast
qed


lemma hp2_loop_wrap:
  "k \<le> 63 \<Longrightarrow> (2::64 word) ^ 63 < n \<Longrightarrow> hp2_loop (2 ^ k) n = 0"
proof (induction "63 - k" arbitrary: k)
  case 0
  then have k: "k = 63" by simp
  have z: "push_bit 1 ((2::64 word) ^ 63) = 0" by simp
  have "hp2_loop (2 ^ 63) n = hp2_loop (push_bit 1 (2 ^ 63)) n"
    using 0(3) by (subst hp2_loop.simps) (simp add: p2_pos)
  also have "\<dots> = hp2_loop 0 n" by (simp only: z)
  also have "\<dots> = 0" by (subst hp2_loop.simps) simp
  finally show ?case using k by simp
next
  case (Suc d)
  then have k: "k < 63" by simp
  have pos: "(0::64 word) < 2 ^ k" using k by (simp add: p2_pos)
  have n1: "unat ((2::64 word) ^ k) = 2 ^ k" using k by (intro unat_p2) simp
  have n2: "unat ((2::64 word) ^ 63) = 2 ^ 63" by (intro unat_p2) simp
  have "(2::nat) ^ k \<le> 2 ^ 63" using k by (intro power_increasing) simp_all
  then have "(2::64 word) ^ k \<le> 2 ^ 63" unfolding word_le_nat_alt n1 n2 .
  then have lt: "(2::64 word) ^ k < n" using Suc.prems(2) by simp
  have step: "hp2_loop (2 ^ k) n = hp2_loop (2 ^ Suc k) n"
    using pos lt by (subst hp2_loop.simps) (simp add: push_bit_eq_mult mult.commute)
  have "d = 63 - Suc k" using Suc.hyps(2) by simp
  moreover have "Suc k \<le> 63" using k by simp
  ultimately have "hp2_loop (2 ^ Suc k) n = 0" using Suc.hyps(1) Suc.prems(2) by blast
  then show ?case using step by simp
qed

lemma hp2_wrap: "(2::64 word) ^ 63 < n \<Longrightarrow> highestPowerofTwoLessThan n = 0"
  using hp2_loop_wrap [of 0 n] by (simp add: highestPowerofTwoLessThan_def)

section \<open>Exchanges without effect\<close>

lemma reverse_loop_unaligned: "sz mod 8 \<noteq> 0 \<Longrightarrow> reverse_loop st low sz i j = Inr st"
proof (induction st low sz i j rule: reverse_loop.induct)
  case (1 st low sz i j)
  show ?case
  proof (cases "i < j")
    case True
    have sw: "swap st (eptr (Base, 0) (int (i + low)) sz) (eptr (Base, 0) (int (j + low)) sz) sz = Inr st"
      using "1.prems" by (rule swap_unaligned)
    have "reverse_loop st low sz (i + 1) (j - 1) = Inr st"
      using "1.IH" [OF True sw "1.prems"] .
    then show ?thesis using True sw by (subst reverse_loop.simps) simp
  next
    case False
    then show ?thesis by (subst reverse_loop.simps) simp
  qed
qed

lemma merge_worker_unaligned:
  "sz mod 8 \<noteq> 0 \<Longrightarrow> merge_worker st compar asec m sz i e = Inr st' \<Longrightarrow> st' = st"
proof (induction st compar asec m sz i e rule: merge_worker.induct)
  case (1 st compar asec m sz i e)
  from "1.prems"(2) show ?case
    apply (subst (asm) merge_worker.simps)
    apply (auto simp: Let_def bnd_def swap_unaligned "1.prems"(1) split: if_splits sum.splits)
    using "1.IH" "1.prems"(1) by (auto simp: swap_unaligned)
qed


lemma median3_unaligned:
  "sz mod 8 \<noteq> 0 \<Longrightarrow> median3 st compar sz lo mid hi = Inr st' \<Longrightarrow> st' = st"
  by (auto simp: median3_def bnd_def swap_unaligned split: sum.splits if_splits)

lemma partition_loop_unaligned:
  "sz mod 8 \<noteq> 0 \<Longrightarrow> partition_loop st compar sz i j = Inr (st', i', j') \<Longrightarrow> st' = st"
proof (induction st compar sz i j rule: partition_loop.induct)
  case (1 st compar sz i j)
  from "1.prems"(2) show ?case
    apply (subst (asm) partition_loop.simps)
    apply (auto simp: bnd_def swap_unaligned "1.prems"(1) split: if_splits sum.splits)
    using "1.IH" "1.prems"(1) by (auto simp: swap_unaligned)
qed

section \<open>Arrays of elements\<close>

lemma uniform_simps [simp]:
  "uniform sz []"
  "uniform sz (x # xs) = (length x = sz \<and> uniform sz xs)"
  "uniform sz (xs @ ys) = (uniform sz xs \<and> uniform sz ys)"
  by (auto simp: uniform_def)

lemma uniform_nth: "uniform sz xs \<Longrightarrow> i < length xs \<Longrightarrow> length (xs ! i) = sz"
  by (simp add: uniform_def)

lemma uniform_take: "uniform sz xs \<Longrightarrow> uniform sz (take n xs)"
  by (auto simp: uniform_def dest: in_set_takeD)

lemma uniform_drop: "uniform sz xs \<Longrightarrow> uniform sz (drop n xs)"
  by (auto simp: uniform_def dest: in_set_dropD)

lemma uniform_update: "uniform sz xs \<Longrightarrow> length v = sz \<Longrightarrow> uniform sz (xs[i := v])"
  by (auto simp: uniform_def dest!: subsetD [OF set_update_subset_insert])

lemma uniform_mset: "mset xs = mset ys \<Longrightarrow> uniform sz xs = uniform sz ys"
  by (auto simp: uniform_def dest: mset_eq_setD)

lemma length_concat_uniform: "uniform sz xs \<Longrightarrow> length (concat xs) = length xs * sz"
  by (induction xs) auto

lemma elem_concat:
  "uniform sz xs \<Longrightarrow> i < length xs \<Longrightarrow> take sz (drop (i * sz) (concat xs)) = xs ! i"
proof (induction xs arbitrary: i)
  case Nil
  then show ?case by simp
next
  case (Cons x xs)
  then show ?case by (cases i) auto
qed

lemma upd_concat:
  "uniform sz xs \<Longrightarrow> i < length xs \<Longrightarrow> length v = sz \<Longrightarrow>
   upd_bytes (concat xs) (i * sz) v = concat (xs[i := v])"
proof (induction xs arbitrary: i)
  case Nil
  then show ?case by simp
next
  case (Cons x xs)
  show ?case
  proof (cases i)
    case 0
    then show ?thesis using Cons.prems by (simp add: upd_bytes_def)
  next
    case (Suc i')
    have "upd_bytes (x @ concat xs) (length x + i' * sz) v = x @ upd_bytes (concat xs) (i' * sz) v"
      by (simp add: upd_bytes_def)
    then show ?thesis using Cons Suc by simp
  qed
qed

lemma chunks_concat: "uniform sz xs \<Longrightarrow> chunks sz (length xs) (concat xs) = xs"
  by (rule nth_equalityI) (simp_all add: chunks_def elem_concat)

lemma eptr_simp [simp]: "eptr (r, 0) k sz = (r, k * int sz)"
  by (simp add: eptr_def padd_def)

lemma eptr_off: "eptr (eptr (r, 0) (int l) sz) j sz = eptr (r, 0) (int l + j) sz"
  by (simp add: eptr_def padd_def algebra_simps)

lemma load_elem:
  assumes "block st r = Some (concat xs)" "uniform sz xs" "i < length xs"
  shows "load st (r, int i * int sz) sz = Inr (xs ! i)"
proof -
  have "i * sz + sz \<le> length xs * sz"
    using assms(3) by (metis Suc_leI mult_Suc mult_le_mono1 add.commute)
  then show ?thesis
    using load_ok [OF assms(1), of "i * sz" sz] assms(2,3)
    by (simp add: length_concat_uniform elem_concat)
qed

lemma elem_bounds: "i < n \<Longrightarrow> i * sz + sz \<le> n * (sz::nat)"
  by (metis Suc_leI mult_Suc mult_le_mono1 add.commute)

lemma elem_disjoint: "i \<noteq> j \<Longrightarrow> j * sz + sz \<le> i * sz \<or> i * sz + sz \<le> j * (sz::nat)"
  using elem_bounds [of i j sz] elem_bounds [of j i sz] by (cases "i < j") auto

lemma copy_elem:
  assumes "block st rs = Some (concat S)" "block st rd = Some (concat D)"
    "uniform sz S" "uniform sz D" "j < length S" "i < length D"
    "rs \<noteq> rd \<or> i \<noteq> j" "sz mod 8 = 0"
  shows "my_memcpy st (rd, int i * int sz) (rs, int j * int sz) sz =
         Inr (set_block st rd (concat (D[i := S ! j])))"
proof -
  have 1: "j * sz + sz \<le> length (concat S)"
    using assms(3,5) by (simp add: length_concat_uniform elem_bounds)
  have 2: "i * sz + sz \<le> length (concat D)"
    using assms(4,6) by (simp add: length_concat_uniform elem_bounds)
  have 3: "rs \<noteq> rd \<or> j * sz + sz \<le> i * sz \<or> i * sz + sz \<le> j * sz"
    using assms(7) elem_disjoint [of i j sz] by auto
  have "my_memcpy st (rd, int (i * sz)) (rs, int (j * sz)) sz =
         Inr (set_block st rd (upd_bytes (concat D) (i * sz) (take sz (drop (j * sz) (concat S)))))"
    using assms(1,2) 1 2 3 assms(8) by (rule my_memcpy_ok)
  moreover have "take sz (drop (j * sz) (concat S)) = S ! j"
    using assms(3,5) by (rule elem_concat)
  moreover have "upd_bytes (concat D) (i * sz) (S ! j) = concat (D[i := S ! j])"
    using assms(3,4,5,6) by (intro upd_concat) (auto simp: uniform_nth)
  ultimately show ?thesis by simp
qed

lemma compar_elem:
  assumes "block st r = Some (concat xs)" "uniform sz xs" "i < length xs"
    "block st r' = Some (concat ys)" "uniform sz ys" "j < length ys"
  shows "compar_at st c sz (r, int i * int sz) (r', int j * int sz) = Inr (c (xs ! i) (ys ! j))"
  using load_elem [OF assms(1,2,3)] load_elem [OF assms(4,5,6)]
  by (simp add: compar_at_def)

section \<open>Comparators, merging and stability on lists\<close>

lemma vc_refl: "valid_compar c \<Longrightarrow> c a a = 0"
  unfolding valid_compar_def by (metis less_le not_less_iff_gr_or_eq)

lemma vc_flip_le: "valid_compar c \<Longrightarrow> (c a b \<le> 0) = (c b a \<ge> 0)"
  unfolding valid_compar_def by (metis linorder_not_less)

lemma vc_flip_eq: "valid_compar c \<Longrightarrow> (c a b = 0) = (c b a = 0)"
  unfolding valid_compar_def by (metis less_le not_less_iff_gr_or_eq linorder_neqE_linordered_idom)

lemma vc_trans: "valid_compar c \<Longrightarrow> c a b \<le> 0 \<Longrightarrow> c b d \<le> 0 \<Longrightarrow> c a d \<le> 0"
  unfolding valid_compar_def by blast

lemma vc_total: "valid_compar c \<Longrightarrow> c a b \<le> 0 \<or> c b a \<le> 0"
  unfolding valid_compar_def by (metis linorder_not_less less_le)

lemma vc_gt_le: "valid_compar c \<Longrightarrow> c a b > 0 \<Longrightarrow> c b a \<le> 0"
  unfolding valid_compar_def by (metis less_le)

lemma vc_eq_le_left: "valid_compar c \<Longrightarrow> c z a = 0 \<Longrightarrow> c a b \<le> 0 \<Longrightarrow> c z b \<le> 0"
  by (metis vc_trans order_refl)

lemma vc_eq_le_right: "valid_compar c \<Longrightarrow> c a b \<le> 0 \<Longrightarrow> c b z = 0 \<Longrightarrow> c a z \<le> 0"
  by (metis vc_trans order_refl)

lemma vc_lt_not_eq:
  assumes "valid_compar c" "c a b > 0" "c z b = 0"
  shows "c z a \<noteq> 0"
proof
  assume "c z a = 0"
  then have "c a z \<le> 0" using assms(1) vc_flip_eq by fastforce
  moreover have "c z b \<le> 0" using assms(3) by simp
  ultimately have "c a b \<le> 0" using assms(1) vc_trans by blast
  then show False using assms(2) by simp
qed

lemma mset_merged: "mset (merged c xs ys) = mset xs + mset ys"
  by (induction c xs ys rule: merged.induct) auto

lemma set_merged: "set (merged c xs ys) = set xs \<union> set ys"
  using mset_merged [of c xs ys] by (metis set_mset_mset set_mset_union)

lemma length_merged: "length (merged c xs ys) = length xs + length ys"
  using mset_merged [of c xs ys] by (metis size_mset size_union)

lemma sorted_merged:
  "valid_compar c \<Longrightarrow> sorted_by c xs \<Longrightarrow> sorted_by c ys \<Longrightarrow> sorted_by c (merged c xs ys)"
proof (induction c xs ys rule: merged.induct)
  case (3 c x xs y ys)
  show ?case
  proof (cases "c x y > 0")
    case True
    then have yx: "c y x \<le> 0" using "3.prems"(1) vc_gt_le by blast
    have "\<forall>z\<in>set (x # xs) \<union> set ys. c y z \<le> 0"
      using "3.prems" yx by (auto simp: sorted_by_def intro: vc_trans)
    then show ?thesis using True "3.IH"(1) "3.prems"
      by (auto simp: sorted_by_def set_merged)
  next
    case False
    then have xy: "c x y \<le> 0" by simp
    have "\<forall>z\<in>set xs \<union> set (y # ys). c x z \<le> 0"
      using "3.prems" xy by (auto simp: sorted_by_def intro: vc_trans)
    then show ?thesis using False "3.IH"(2) "3.prems"
      by (auto simp: sorted_by_def set_merged)
  qed
qed (auto simp: sorted_by_def)

lemma filter_merged:
  "valid_compar c \<Longrightarrow> sorted_by c xs \<Longrightarrow>
   filter (\<lambda>y. c z y = 0) (merged c xs ys) = filter (\<lambda>y. c z y = 0) xs @ filter (\<lambda>y. c z y = 0) ys"
proof (induction c xs ys rule: merged.induct)
  case (3 c x xs y ys)
  show ?case
  proof (cases "c x y > 0")
    case True
    note IH = "3.IH"(1) [OF True "3.prems"]
    show ?thesis
    proof (cases "c z y = 0")
      case zy: True
      have "\<forall>a\<in>set (x # xs). c z a \<noteq> 0"
      proof
        fix a assume a: "a \<in> set (x # xs)"
        have "c x a \<le> 0" using a "3.prems" by (auto simp: sorted_by_def vc_refl)
        show "c z a \<noteq> 0"
        proof
          assume za: "c z a = 0"
          have "c a z \<le> 0" using za "3.prems"(1) vc_flip_eq by fastforce
          with \<open>c x a \<le> 0\<close> have "c x z \<le> 0" using "3.prems"(1) vc_trans by blast
          moreover have "c z y \<le> 0" using zy by simp
          ultimately have "c x y \<le> 0" using "3.prems"(1) vc_trans by blast
          then show False using True by simp
        qed
      qed
      then have "filter (\<lambda>y. c z y = 0) (x # xs) = []" by (simp add: filter_empty_conv)
      then show ?thesis using True IH zy by simp
    next
      case False
      then show ?thesis using True IH by simp
    qed
  next
    case False
    have "sorted_by c xs" using "3.prems"(2) by (simp add: sorted_by_def)
    note IH = "3.IH"(2) [OF False "3.prems"(1) this]
    show ?thesis using False IH by simp
  qed
qed auto

lemma stable_merged:
  assumes "valid_compar c" "sorted_by c xs'" "stable_of c xs xs'" "stable_of c ys ys'"
  shows "stable_of c (xs @ ys) (merged c xs' ys')"
  using assms by (simp add: stable_of_def filter_merged)

lemma stable_of_refl [simp]: "stable_of c xs xs"
  by (simp add: stable_of_def)

lemma stable_of_mset:
  assumes "valid_compar c" "stable_of c inp out"
  shows "mset out = mset inp"
proof (rule multiset_eqI)
  fix z
  have "count (mset out) z = count (mset (filter (\<lambda>y. c z y = 0) out)) z"
    using assms(1) by (simp add: vc_refl)
  also have "\<dots> = count (mset (filter (\<lambda>y. c z y = 0) inp)) z"
    using assms(2) by (simp add: stable_of_def)
  also have "\<dots> = count (mset inp) z"
    using assms(1) by (simp add: vc_refl)
  finally show "count (mset out) z = count (mset inp) z" .
qed

lemma stable_sorted_unique:
  assumes "valid_compar c"
  shows "sorted_by c xs \<Longrightarrow> sorted_by c ys \<Longrightarrow> stable_of c xs ys \<Longrightarrow> ys = xs"
proof (induction xs arbitrary: ys)
  case Nil
  have "mset ys = mset []" using assms Nil.prems(3) by (rule stable_of_mset)
  then show ?case by simp
next
  case (Cons x xs)
  have ms: "mset ys = mset (x # xs)" using assms Cons.prems(3) by (rule stable_of_mset)
  then obtain y ys' where ys: "ys = y # ys'" by (cases ys) auto
  have "y \<in> set (x # xs)" using ms ys by (metis list.set_intros(1) mset_eq_setD)
  then have xy: "c x y \<le> 0" using Cons.prems(1) assms by (auto simp: sorted_by_def vc_refl)
  have "x \<in> set (y # ys')" using ms ys by (metis list.set_intros(1) mset_eq_setD)
  then have yx: "c y x \<le> 0" using Cons.prems(2) ys assms by (auto simp: sorted_by_def vc_refl)
  have e: "c x y = 0" using xy yx vc_flip_le [OF assms, of y x] by simp
  have "filter (\<lambda>a. c x a = 0) (y # ys') = filter (\<lambda>a. c x a = 0) (x # xs)"
    using Cons.prems(3) ys by (simp add: stable_of_def)
  then have hd: "y = x" using e assms by (simp add: vc_refl)
  have "stable_of c xs ys'"
    unfolding stable_of_def
  proof
    fix z
    have "filter (\<lambda>a. c z a = 0) (y # ys') = filter (\<lambda>a. c z a = 0) (x # xs)"
      using Cons.prems(3) ys by (simp add: stable_of_def)
    then show "filter (\<lambda>a. c z a = 0) ys' = filter (\<lambda>a. c z a = 0) xs"
      using hd by (simp split: if_splits)
  qed
  moreover have "sorted_by c xs" "sorted_by c ys'"
    using Cons.prems(1,2) ys by (simp_all add: sorted_by_def)
  ultimately have "ys' = xs" using Cons.IH by blast
  then show ?case using ys hd by simp
qed

section \<open>The merge step\<close>

lemma block_simps [simp]:
  "block st Base = Some (base st)" "block st Temp = temp st" "block st Scratch = scratch st"
  by (simp_all add: block_def)

lemma set_block_simps [simp]:
  "set_block st Base bs = st\<lparr>base := bs\<rparr>"
  "set_block st Temp bs = st\<lparr>temp := Some bs\<rparr>"
  "set_block st Scratch bs = st\<lparr>scratch := Some bs\<rparr>"
  by (simp_all add: set_block_def)

lemma length_overlay [simp]: "length (overlay T B a b) = length T"
  by (simp add: overlay_def)

lemma nth_overlay: "k < length T \<Longrightarrow> overlay T B a b ! k = (if a \<le> k \<and> k < b then B ! k else T ! k)"
  by (simp add: overlay_def)

lemma overlay_empty [simp]: "overlay T B b b = T"
  by (rule nth_equalityI) (auto simp: nth_overlay)

lemma overlay_step: "a < b \<Longrightarrow> b \<le> length T \<Longrightarrow> overlay (T[a := B ! a]) B (Suc a) b = overlay T B a b"
  by (rule nth_equalityI) (auto simp: nth_overlay nth_list_update)

lemma overlay_overlay: "a \<le> m \<Longrightarrow> m \<le> b \<Longrightarrow> overlay (overlay T B a m) B m b = overlay T B a b"
  by (rule nth_equalityI) (auto simp: nth_overlay)

lemma uniform_overlay: "uniform sz T \<Longrightarrow> uniform sz B \<Longrightarrow> b \<le> length B \<Longrightarrow> uniform sz (overlay T B a b)"
  by (auto simp: uniform_def overlay_def)

lemma map_nth_overlay:
  "a \<le> i \<Longrightarrow> j \<le> b \<Longrightarrow> b \<le> length T \<Longrightarrow> map ((!) (overlay T B a b)) [i..<j] = map ((!) B) [i..<j]"
  by (auto simp: nth_overlay)

lemma copy_to_temp_ok:
  assumes "sz mod 8 = 0" "uniform sz B" "from + n \<le> length B"
  shows "temp st = Some (concat T) \<Longrightarrow> uniform sz T \<Longrightarrow> from + n \<le> length T \<Longrightarrow> i \<le> n \<Longrightarrow>
     base st = concat B \<Longrightarrow>
     copy_to_temp st sz from n i =
       Inr (st\<lparr>temp := Some (concat (overlay T B (from + i) (from + n)))\<rparr>)"
proof (induction "n - i" arbitrary: i st T)
  case 0
  then show ?case by (subst copy_to_temp.simps) simp
next
  case (Suc d)
  then have lt: "i < n" by simp
  let ?T' = "T[i + from := B ! (i + from)]"
  have cp: "my_memcpy st (Temp, int (i + from) * int sz) (Base, int (i + from) * int sz) sz =
        Inr (set_block st Temp (concat ?T'))"
    using Suc.prems assms lt by (intro copy_elem) auto
  have u: "uniform sz ?T'" using Suc.prems(2) assms(2,3) lt
    by (intro uniform_update) (auto simp: uniform_nth)
  have "copy_to_temp (st\<lparr>temp := Some (concat ?T')\<rparr>) sz from n (Suc i) =
       Inr (st\<lparr>temp := Some (concat ?T')\<rparr>\<lparr>temp := Some (concat (overlay ?T' B (from + Suc i) (from + n)))\<rparr>)"
    using Suc.hyps(2) Suc.prems lt u by (intro Suc.hyps(1)) auto
  moreover have "overlay ?T' B (from + Suc i) (from + n) = overlay T B (from + i) (from + n)"
    using overlay_step [of "from + i" "from + n" T B] lt Suc.prems(3) by (simp add: add.commute)
  ultimately show ?case using lt cp
    by (subst copy_to_temp.simps) simp
qed

lemma copy_rest_ok:
  assumes "sz mod 8 = 0" "temp st0 = Some (concat T)" "uniform sz T" "iend \<le> length T"
  shows "base st = concat (P @ X @ R) \<Longrightarrow> uniform sz (P @ X @ R) \<Longrightarrow> length P = k \<Longrightarrow>
     length X = iend - i \<Longrightarrow> temp st = temp st0 \<Longrightarrow>
     copy_rest st sz iend i k =
       Inr (st\<lparr>base := concat (P @ map ((!) T) [i..<iend] @ R)\<rparr>, k + (iend - i))"
proof (induction "iend - i" arbitrary: i k st P X)
  case 0
  then show ?case by (subst copy_rest.simps) simp
next
  case (Suc d)
  then have lt: "i < iend" by simp
  obtain x X' where X: "X = x # X'" using Suc.prems(4) lt by (cases X) auto
  let ?D = "P @ X @ R"
  have cp: "my_memcpy st (Base, int k * int sz) (Temp, int i * int sz) sz =
        Inr (set_block st Base (concat (?D[k := T ! i])))"
    using Suc.prems assms lt X by (intro copy_elem) auto
  have upd: "?D[k := T ! i] = (P @ [T ! i]) @ X' @ R"
    using Suc.prems(3) X by (simp add: list_update_append)
  have u: "uniform sz ((P @ [T ! i]) @ X' @ R)"
    using Suc.prems(2) X assms(3,4) lt by (simp add: uniform_nth)
  have "copy_rest (st\<lparr>base := concat ((P @ [T ! i]) @ X' @ R)\<rparr>) sz iend (Suc i) (Suc k) =
       Inr (st\<lparr>base := concat ((P @ [T ! i]) @ X' @ R)\<rparr>
              \<lparr>base := concat ((P @ [T ! i]) @ map ((!) T) [Suc i..<iend] @ R)\<rparr>,
            Suc k + (iend - Suc i))"
    using Suc.hyps(2) Suc.prems(3,4,5) X lt u by (intro Suc.hyps(1)) auto
  moreover have "[i..<iend] = i # [Suc i..<iend]" using lt by (simp add: upt_conv_Cons)
  ultimately show ?case using lt cp upd
    by (subst copy_rest.simps) simp
qed

lemma bnd_assoc: "bnd (bnd m f) g = bnd m (\<lambda>x. bnd (f x) g)"
  by (cases m) simp_all

lemma merged_Nil2 [simp]: "merged c xs [] = xs"
  by (cases xs) simp_all

lemma merge_tail_step:
  "i < iend \<Longrightarrow> j < jend \<Longrightarrow>
   merge_tail st c sz iend jend i j k =
     bnd (compar_at st c sz (eptr (Temp, 0) (int i) sz) (eptr (Temp, 0) (int j) sz)) (\<lambda>r.
       if r > 0
       then bnd (my_memcpy st (eptr (Base, 0) (int k) sz) (eptr (Temp, 0) (int j) sz) sz) (\<lambda>st'.
            merge_tail st' c sz iend jend i (j + 1) (k + 1))
       else bnd (my_memcpy st (eptr (Base, 0) (int k) sz) (eptr (Temp, 0) (int i) sz) sz) (\<lambda>st'.
            merge_tail st' c sz iend jend (i + 1) j (k + 1)))"
  unfolding merge_tail_def
  apply (subst merge_loop.simps)
  apply (simp add: bnd_assoc)
  apply (rule arg_cong [where f = "bnd _"])
  apply (rule ext)
  apply (simp add: bnd_assoc)
  done

lemma merge_tail_stop:
  "\<not> (i < iend \<and> j < jend) \<Longrightarrow>
   merge_tail st c sz iend jend i j k =
     bnd (copy_rest st sz iend i k) (\<lambda>(st4, k').
     bnd (copy_rest st4 sz jend j k') (\<lambda>(st5, k''). Inr st5))"
proof -
  assume "\<not> (i < iend \<and> j < jend)"
  then have "merge_loop st c sz iend jend i j k = Inr (st, i, j, k)"
    by (subst merge_loop.simps) auto
  then show ?thesis by (simp add: merge_tail_def)
qed

lemma map_nth_shift: "map ((!) (L @ X)) [length L..<length L + n] = map ((!) X) [0..<n]"
  by (induction n) (simp_all add: nth_append)

lemma map_nth_prefix: "map ((!) (A @ R)) [0..<length A] = A"
  by (rule nth_equalityI) (simp_all add: nth_append)

lemma map_nth_seg: "map ((!) (L @ A @ R)) [length L..<length L + length A] = A"
  by (simp add: map_nth_shift map_nth_prefix)

lemma merge_tail_ok:
  assumes "sz mod 8 = 0" "temp st0 = Some (concat T)" "uniform sz T"
    "iend \<le> length T" "jend \<le> length T"
  shows "base st = concat (P @ X @ R) \<Longrightarrow> uniform sz (P @ X @ R) \<Longrightarrow> length P = k \<Longrightarrow>
     length X = (iend - i) + (jend - j) \<Longrightarrow> temp st = temp st0 \<Longrightarrow>
     merge_tail st c sz iend jend i j k =
       Inr (st\<lparr>base := concat (P @ merged c (map ((!) T) [i..<iend]) (map ((!) T) [j..<jend]) @ R)\<rparr>)"
proof (induction "(iend - i) + (jend - j)" arbitrary: i j k st P X)
  case 0
  then have "\<not> (i < iend \<and> j < jend)" "[i..<iend] = []" "[j..<jend] = []" "X = []" by auto
  moreover have "copy_rest st sz iend i k = Inr (st, k)" using 0
    by (subst copy_rest.simps) simp
  moreover have "copy_rest st sz jend j k = Inr (st, k)" using 0
    by (subst copy_rest.simps) simp
  ultimately show ?case using 0 by (simp add: merge_tail_stop)
next
  case (Suc d)
  show ?case
  proof (cases "i < iend \<and> j < jend")
    case True
    then have lt: "i < iend" "j < jend" by simp_all
    obtain x X' where X: "X = x # X'" using Suc.prems(4) lt by (cases X) auto
    let ?D = "P @ X @ R"
    have ui: "[i..<iend] = i # [Suc i..<iend]" and uj: "[j..<jend] = j # [Suc j..<jend]"
      using lt by (simp_all add: upt_conv_Cons)
    have cmp: "compar_at st c sz (Temp, int i * int sz) (Temp, int j * int sz) = Inr (c (T ! i) (T ! j))"
      using Suc.prems(5) assms lt by (intro compar_elem) auto
    show ?thesis
    proof (cases "c (T ! i) (T ! j) > 0")
      case gt: True
      have cp: "my_memcpy st (Base, int k * int sz) (Temp, int j * int sz) sz =
          Inr (set_block st Base (concat (?D[k := T ! j])))"
        using Suc.prems assms lt X by (intro copy_elem) auto
      have upd: "?D[k := T ! j] = (P @ [T ! j]) @ X' @ R"
        using Suc.prems(3) X by (simp add: list_update_append)
      have u: "uniform sz ((P @ [T ! j]) @ X' @ R)"
        using Suc.prems(2) X assms(3,5) lt by (simp add: uniform_nth)
      have "merge_tail (st\<lparr>base := concat ((P @ [T ! j]) @ X' @ R)\<rparr>) c sz iend jend i (Suc j) (Suc k) =
         Inr (st\<lparr>base := concat ((P @ [T ! j]) @ X' @ R)\<rparr>
                \<lparr>base := concat ((P @ [T ! j]) @ merged c (map ((!) T) [i..<iend]) (map ((!) T) [Suc j..<jend]) @ R)\<rparr>)"
        using Suc.hyps(2) Suc.prems(3,4,5) X lt u by (intro Suc.hyps(1)) auto
      then show ?thesis using lt cmp gt cp upd ui uj
        by (simp add: merge_tail_step)
    next
      case le: False
      have cp: "my_memcpy st (Base, int k * int sz) (Temp, int i * int sz) sz =
          Inr (set_block st Base (concat (?D[k := T ! i])))"
        using Suc.prems assms lt X by (intro copy_elem) auto
      have upd: "?D[k := T ! i] = (P @ [T ! i]) @ X' @ R"
        using Suc.prems(3) X by (simp add: list_update_append)
      have u: "uniform sz ((P @ [T ! i]) @ X' @ R)"
        using Suc.prems(2) X assms(3,4) lt by (simp add: uniform_nth)
      have "merge_tail (st\<lparr>base := concat ((P @ [T ! i]) @ X' @ R)\<rparr>) c sz iend jend (Suc i) j (Suc k) =
         Inr (st\<lparr>base := concat ((P @ [T ! i]) @ X' @ R)\<rparr>
                \<lparr>base := concat ((P @ [T ! i]) @ merged c (map ((!) T) [Suc i..<iend]) (map ((!) T) [j..<jend]) @ R)\<rparr>)"
        using Suc.hyps(2) Suc.prems(3,4,5) X lt u by (intro Suc.hyps(1)) auto
      then show ?thesis using lt cmp le cp upd ui uj
        by (simp add: merge_tail_step)
    qed
  next
    case False
    let ?xs = "map ((!) T) [i..<iend]" and ?ys = "map ((!) T) [j..<jend]"
    let ?X1 = "take (iend - i) X" and ?X2 = "drop (iend - i) X"
    have m: "merged c ?xs ?ys = ?xs @ ?ys"
    proof (cases "i < iend")
      case True
      then have "[j..<jend] = []" using False by auto
      then show ?thesis by (simp del: upt_eq_Nil_conv)
    next
      case False
      then have "[i..<iend] = []" by auto
      then show ?thesis by (simp del: upt_eq_Nil_conv)
    qed
    have split: "P @ ?X1 @ (?X2 @ R) = P @ X @ R" by simp
    have b1: "base st = concat (P @ ?X1 @ (?X2 @ R))" using Suc.prems(1) by (simp only: split)
    have u1: "uniform sz (P @ ?X1 @ (?X2 @ R))" using Suc.prems(2) by (simp only: split)
    have l1: "length ?X1 = iend - i" using Suc.prems(4) by simp
    have c1: "copy_rest st sz iend i k =
       Inr (st\<lparr>base := concat (P @ ?xs @ (?X2 @ R))\<rparr>, k + (iend - i))"
      using assms(1,2,3,4) b1 u1 Suc.prems(3) l1 Suc.prems(5) by (rule copy_rest_ok)
    let ?st1 = "st\<lparr>base := concat (P @ ?xs @ (?X2 @ R))\<rparr>"
    have ux: "uniform sz ?xs" using assms(3,4) by (auto simp: uniform_def)
    have b2: "base ?st1 = concat ((P @ ?xs) @ ?X2 @ R)" by simp
    have u2: "uniform sz ((P @ ?xs) @ ?X2 @ R)" using Suc.prems(2) ux
      by (simp add: uniform_drop)
    have l2: "length ?X2 = jend - j" using Suc.prems(4) by simp
    have c2: "copy_rest ?st1 sz jend j (k + (iend - i)) =
       Inr (?st1\<lparr>base := concat ((P @ ?xs) @ ?ys @ R)\<rparr>, k + (iend - i) + (jend - j))"
      using assms(1,2,3,5) b2 u2 _ l2
    proof (rule copy_rest_ok)
      show "length (P @ ?xs) = k + (iend - i)" using Suc.prems(3) by simp
      show "temp ?st1 = temp st0" using Suc.prems(5) by simp
    qed
    show ?thesis using False c1 c2 m by (simp add: merge_tail_stop)
  qed
qed

lemma p_merge_ok:
  assumes "sz mod 8 = 0" "base st = concat (L @ A @ B @ R)" "uniform sz (L @ A @ B @ R)"
    "temp st = Some (concat T)" "uniform sz T" "length T = length (L @ A @ B @ R)"
    "length L = l" "length A = m - l + 1" "length B = r - m" "l \<le> m"
  shows "p_merge st sz c l r m =
     Inr (st\<lparr>temp := Some (concat (overlay T (L @ A @ B @ R) l (m + 1 + (r - m)))),
             base := concat (L @ merged c A B @ R)\<rparr>)"
proof -
  let ?D = "L @ A @ B @ R"
  let ?T1 = "overlay T ?D (l + 0) (l + (m - l + 1))"
  let ?T2 = "overlay ?T1 ?D (m + 1 + 0) (m + 1 + (r - m))"
  have c1: "copy_to_temp st sz l (m - l + 1) 0 = Inr (st\<lparr>temp := Some (concat ?T1)\<rparr>)"
    using assms by (intro copy_to_temp_ok) auto
  let ?st1 = "st\<lparr>temp := Some (concat ?T1)\<rparr>"
  have u1: "uniform sz ?T1" using assms by (intro uniform_overlay) auto
  have c2: "copy_to_temp ?st1 sz (m + 1) (r - m) 0 = Inr (?st1\<lparr>temp := Some (concat ?T2)\<rparr>)"
    using assms u1 by (intro copy_to_temp_ok) auto
  let ?st2 = "st\<lparr>temp := Some (concat ?T2)\<rparr>"
  have T2: "?T2 = overlay T ?D l (m + 1 + (r - m))"
    using assms(10) overlay_overlay [of l "m + 1" "m + 1 + (r - m)" T ?D] by simp
  have u2: "uniform sz ?T2" using assms u1 by (intro uniform_overlay) auto
  have lT: "m + 1 + (r - m) \<le> length ?T2" using assms by simp
  have xs: "map ((!) ?T2) [l..<m - l + 1 + l] = A"
  proof -
    have "map ((!) ?T2) [l..<m - l + 1 + l] = map ((!) ?D) [l..<m - l + 1 + l]"
      unfolding T2 using assms by (intro map_nth_overlay) auto
    also have "\<dots> = A" using assms(7,8,10) map_nth_seg [of L A "B @ R"]
      by (simp add: add.commute)
    finally show ?thesis .
  qed
  have ys: "map ((!) ?T2) [m + 1..<r - m + m + 1] = B"
  proof -
    have "map ((!) ?T2) [m + 1..<r - m + m + 1] = map ((!) ?D) [m + 1..<r - m + m + 1]"
      unfolding T2 using assms by (intro map_nth_overlay) auto
    also have "\<dots> = B" using assms(7,8,9,10) map_nth_seg [of "L @ A" B R]
      by (simp add: add.commute)
    finally show ?thesis .
  qed
  have mt: "merge_tail ?st2 c sz (m - l + 1 + l) (r - m + m + 1) l (m + 1) l =
     Inr (?st2\<lparr>base := concat (L @ merged c (map ((!) ?T2) [l..<m - l + 1 + l])
                                   (map ((!) ?T2) [m + 1..<r - m + m + 1]) @ R)\<rparr>)"
  proof (rule merge_tail_ok [where ?st0.0 = ?st2 and X = "A @ B"])
    show "sz mod 8 = 0" by fact
    show "temp ?st2 = Some (concat ?T2)" by simp
    show "uniform sz ?T2" by fact
    show "m - l + 1 + l \<le> length ?T2" using assms by simp
    show "r - m + m + 1 \<le> length ?T2" using assms by simp
    show "base ?st2 = concat (L @ (A @ B) @ R)" using assms by simp
    show "uniform sz (L @ (A @ B) @ R)" using assms by simp
    show "length L = l" by fact
    show "length (A @ B) = m - l + 1 + l - l + (r - m + m + 1 - (m + 1))" using assms by simp
    show "temp ?st2 = temp ?st2" by simp
  qed
  show ?thesis
    unfolding p_merge_def Let_def
    using c1 c2 mt xs ys T2
    by (simp add: merge_tail_def [symmetric])
qed

section \<open>Insertion sort is a stable sort\<close>

lemma insert_sorted_stable:
  assumes vc: "valid_compar c" and s: "sorted_by c P" and n: "n \<le> length P"
    and le: "n > 0 \<longrightarrow> c (P ! (n - 1)) x \<le> 0"
    and gt: "\<forall>k. n \<le> k \<and> k < length P \<longrightarrow> c (P ! k) x > 0"
  shows "sorted_by c (take n P @ [x] @ drop n P)"
    and "stable_of c (P @ [x]) (take n P @ [x] @ drop n P)"
proof -
  let ?R = "\<lambda>a b. c a b \<le> 0"
  have "sorted_wrt ?R (take n P @ drop n P)" using s by (simp add: sorted_by_def)
  then have sP: "sorted_wrt ?R (take n P)" "sorted_wrt ?R (drop n P)"
      "\<forall>a\<in>set (take n P). \<forall>b\<in>set (drop n P). c a b \<le> 0"
    unfolding sorted_wrt_append by blast+
  have 1: "c a x \<le> 0" if "a \<in> set (take n P)" for a
  proof -
    from that obtain k where k: "k < n" "a = P ! k"
      using n by (auto simp: in_set_conv_nth)
    show ?thesis
    proof (cases "k = n - 1")
      case True
      then show ?thesis using k le by auto
    next
      case False
      then have "k < n - 1" "n - 1 < length P" using k n by auto
      then have "c (P ! k) (P ! (n - 1)) \<le> 0"
        using s by (simp add: sorted_by_def sorted_wrt_iff_nth_less)
      moreover have "c (P ! (n - 1)) x \<le> 0" using le k by auto
      ultimately show ?thesis unfolding k(2) by (rule vc_trans [OF vc])
    qed
  qed
  have 2: "c b x > 0" if "b \<in> set (drop n P)" for b
  proof -
    from that obtain k where "k < length P - n" "b = P ! (n + k)"
      using n by (auto simp: in_set_conv_nth)
    then show ?thesis using gt by auto
  qed
  have 3: "c x b \<le> 0" if "b \<in> set (drop n P)" for b
    using vc_gt_le [OF vc 2 [OF that]] .
  show "sorted_by c (take n P @ [x] @ drop n P)"
    unfolding sorted_by_def sorted_wrt_append
    using sP 1 3 by simp
  show "stable_of c (P @ [x]) (take n P @ [x] @ drop n P)"
    unfolding stable_of_def
  proof
    fix z
    have "filter (\<lambda>y. c z y = 0) (take n P @ drop n P) = filter (\<lambda>y. c z y = 0) P" by simp
    then have P: "filter (\<lambda>y. c z y = 0) P = filter (\<lambda>y. c z y = 0) (take n P) @ filter (\<lambda>y. c z y = 0) (drop n P)"
      unfolding filter_append by simp
    show "filter (\<lambda>y. c z y = 0) (take n P @ [x] @ drop n P) = filter (\<lambda>y. c z y = 0) (P @ [x])"
    proof (cases "c z x = 0")
      case True
      have "c z b \<noteq> 0" if "b \<in> set (drop n P)" for b
        using vc_lt_not_eq [OF vc 2 [OF that] True] .
      then have "filter (\<lambda>y. c z y = 0) (drop n P) = []" by (simp add: filter_empty_conv)
      then show ?thesis using True P by simp
    next
      case False
      then show ?thesis using P by simp
    qed
  qed
qed


lemma hole_shift:
  "n < length P \<Longrightarrow> length L = l \<Longrightarrow>
   (L @ take (Suc n) P @ [h] @ drop (Suc n) P @ R)[l + Suc n := P ! n] =
    L @ take n P @ [P ! n] @ drop n P @ R"
proof -
  assume n: "n < length P" and l: "length L = l"
  have "(L @ take (Suc n) P @ [h] @ drop (Suc n) P @ R)[l + Suc n := P ! n]
      = L @ take (Suc n) P @ [P ! n] @ drop (Suc n) P @ R"
    using n l by (simp add: list_update_append min_def)
  also have "\<dots> = L @ take n P @ [P ! n] @ drop n P @ R"
    using n by (simp add: take_Suc_conv_app_nth Cons_nth_drop_Suc)
  finally show ?thesis .
qed

lemma hole_fill:
  "n \<le> length P \<Longrightarrow> length L = l \<Longrightarrow>
   (L @ take n P @ [h] @ drop n P @ R)[l + n := x] = L @ take n P @ [x] @ drop n P @ R"
  by (simp add: list_update_append min_def)

lemma hole_nth:
  "n < length P \<Longrightarrow> length L = l \<Longrightarrow> (L @ take (Suc n) P @ [h] @ drop (Suc n) P @ R) ! (l + n) = P ! n"
  by (simp add: nth_append min_def)

lemma ptr_shift: "eptr (Base, int l * int sz) (int n) sz = (Base, int (l + n) * int sz)"
  by (simp add: eptr_def padd_def algebra_simps)

lemma scratch_ptr: "(Scratch, 0) = (Scratch, int 0 * int sz)"
  by simp

lemma ins_shift_ok:
  assumes "sz mod 8 = 0" "length key = sz" "length L = l"
  shows "base st = concat (L @ take n P @ [h] @ drop n P @ R) \<Longrightarrow>
     uniform sz (L @ P @ [h] @ R) \<Longrightarrow> n \<le> length P \<Longrightarrow> scratch st = Some key \<Longrightarrow>
     \<exists>n' h'. ins_shift st c (Base, int l * int sz) sz (int n - 1) =
         Inr (st\<lparr>base := concat (L @ take n' P @ [h'] @ drop n' P @ R)\<rparr>, int n' - 1) \<and>
       n' \<le> n \<and> length h' = sz \<and> (n' > 0 \<longrightarrow> c (P ! (n' - 1)) key \<le> 0) \<and>
       (\<forall>k. n' \<le> k \<and> k < n \<longrightarrow> c (P ! k) key > 0)"
proof (induction n arbitrary: st h)
  case 0
  have "ins_shift st c (Base, int l * int sz) sz (int 0 - 1) = Inr (st, int 0 - 1)"
    by (subst ins_shift.simps) simp
  moreover have "st = st\<lparr>base := concat (L @ take 0 P @ [h] @ drop 0 P @ R)\<rparr>"
    using 0 by simp
  ultimately show ?case using 0
    by (intro exI [of _ 0] exI [of _ h]) (auto simp: uniform_def)
next
  case (Suc n)
  let ?D = "L @ take (Suc n) P @ [h] @ drop (Suc n) P @ R"
  have n: "n < length P" using Suc.prems by simp
  have uD: "uniform sz ?D" using Suc.prems(2) by (simp add: uniform_take uniform_drop)
  have lh: "length h = sz" using Suc.prems(2) by simp
  have ln: "l + n < length ?D" using n assms(3) by simp
  have ks: "block st Scratch = Some (concat [key])" using Suc.prems(4) by simp
  have p0: "eptr (Base, int l * int sz) (int (Suc n) - 1) sz = (Base, int (l + n) * int sz)"
    by (simp add: eptr_def padd_def algebra_simps)
  have p1: "eptr (Base, int l * int sz) (int (Suc n) - 1 + 1) sz = (Base, int (l + Suc n) * int sz)"
    by (simp add: eptr_def padd_def algebra_simps)
  have "compar_at st c sz (Base, int (l + n) * int sz) (Scratch, int 0 * int sz) =
      Inr (c (?D ! (l + n)) ([key] ! 0))"
    using Suc.prems(1) uD ln ks assms(2) by (intro compar_elem) auto
  then have cmp: "compar_at st c sz (eptr (Base, int l * int sz) (int (Suc n) - 1) sz) (Scratch, 0) =
      Inr (c (P ! n) key)"
    unfolding p0
    apply (simp only: hole_nth [OF n assms(3), of h R] nth_Cons_0)
    apply simp
    done
  show ?case
  proof (cases "c (P ! n) key > 0")
    case True
    have "my_memcpy st (Base, int (l + Suc n) * int sz) (Base, int (l + n) * int sz) sz =
       Inr (set_block st Base (concat (?D[l + Suc n := ?D ! (l + n)])))"
      using Suc.prems(1) uD ln n assms by (intro copy_elem) auto
    then have cp: "my_memcpy st (eptr (Base, int l * int sz) (int (Suc n) - 1 + 1) sz)
         (eptr (Base, int l * int sz) (int (Suc n) - 1) sz) sz =
       Inr (st\<lparr>base := concat (L @ take n P @ [P ! n] @ drop n P @ R)\<rparr>)"
      unfolding p0 p1
      by (simp only: hole_nth [OF n assms(3), of h R] hole_shift [OF n assms(3), of h R]
            set_block_simps)
    let ?st' = "st\<lparr>base := concat (L @ take n P @ [P ! n] @ drop n P @ R)\<rparr>"
    have u': "uniform sz (L @ P @ [P ! n] @ R)"
      using Suc.prems(2) n by (simp add: uniform_nth)
    obtain n' h' where r: "ins_shift ?st' c (Base, int l * int sz) sz (int n - 1) =
         Inr (?st'\<lparr>base := concat (L @ take n' P @ [h'] @ drop n' P @ R)\<rparr>, int n' - 1)"
       "n' \<le> n" "length h' = sz" "n' > 0 \<longrightarrow> c (P ! (n' - 1)) key \<le> 0"
       "\<forall>k. n' \<le> k \<and> k < n \<longrightarrow> c (P ! k) key > 0"
      using Suc.IH [of ?st' "P ! n"] u' n Suc.prems(4) by auto
    have all: "\<forall>k. n' \<le> k \<and> k < Suc n \<longrightarrow> c (P ! k) key > 0"
      using r(5) True by (auto simp: less_Suc_eq)
    have "ins_shift st c (Base, int l * int sz) sz (int (Suc n) - 1) =
         Inr (st\<lparr>base := concat (L @ take n' P @ [h'] @ drop n' P @ R)\<rparr>, int n' - 1)"
      apply (subst ins_shift.simps)
      using cmp True cp r(1) by simp
    then show ?thesis using r(2,3,4) all
      by (intro exI [of _ n'] exI [of _ h']) auto
  next
    case False
    have "ins_shift st c (Base, int l * int sz) sz (int (Suc n) - 1) = Inr (st, int (Suc n) - 1)"
      apply (subst ins_shift.simps)
      using cmp False by simp
    moreover have "st = st\<lparr>base := concat ?D\<rparr>" using Suc.prems(1) by simp
    ultimately show ?thesis using False lh
      by (intro exI [of _ "Suc n"] exI [of _ h]) auto
  qed
qed

lemma stable_of_append:
  "stable_of c A A' \<Longrightarrow> stable_of c (A' @ X) out \<Longrightarrow> stable_of c (A @ X) out"
  by (simp add: stable_of_def)

lemma stable_of_length:
  "valid_compar c \<Longrightarrow> stable_of c inp out \<Longrightarrow> length out = length inp"
  by (metis stable_of_mset size_mset)

lemma stable_of_uniform:
  "valid_compar c \<Longrightarrow> stable_of c inp out \<Longrightarrow> uniform sz inp \<Longrightarrow> uniform sz out"
  by (metis stable_of_mset uniform_mset)

lemma ins_outer_ok:
  assumes "sz mod 8 = 0" "valid_compar c" "length L = l"
  shows "base st = concat (L @ P @ X @ R) \<Longrightarrow> uniform sz (L @ P @ X @ R) \<Longrightarrow> length P = i \<Longrightarrow>
     length X = nelem - i \<Longrightarrow> scratch st = Some k \<Longrightarrow> length k = sz \<Longrightarrow> sorted_by c P \<Longrightarrow>
     \<exists>out k'. ins_outer st c (Base, int l * int sz) nelem sz i =
         Inr (st\<lparr>base := concat (L @ out @ R), scratch := Some k'\<rparr>) \<and>
       sorted_by c out \<and> stable_of c (P @ X) out"
proof (induction "nelem - i" arbitrary: i st P X k)
  case 0
  then have X: "X = []" by simp
  have "ins_outer st c (Base, int l * int sz) nelem sz i = Inr st"
    using 0 by (subst ins_outer.simps) simp
  moreover have "st = st\<lparr>base := concat (L @ P @ R), scratch := Some k\<rparr>"
    using 0 X by simp
  ultimately show ?case using 0 X
    by (intro exI [of _ P] exI [of _ k]) simp
next
  case (Suc d)
  then have lt: "i < nelem" by simp
  obtain x X' where X: "X = x # X'" using Suc.prems(4) lt by (cases X) auto
  let ?b = "(Base, int l * int sz)"
  let ?D = "L @ P @ X @ R"
  have lx: "length x = sz" using Suc.prems(2) X by simp
  have Dx: "?D ! (l + i) = x" using assms(3) Suc.prems(3) X by (simp add: nth_append)
  have pi: "eptr ?b (int i) sz = (Base, int (l + i) * int sz)" by (rule ptr_shift)
  have "my_memcpy st (Scratch, int 0 * int sz) (Base, int (l + i) * int sz) sz =
      Inr (set_block st Scratch (concat ([k][0 := ?D ! (l + i)])))"
    using Suc.prems assms X by (intro copy_elem) auto
  then have cp1: "my_memcpy st (Scratch, 0) (eptr ?b (int i) sz) sz = Inr (st\<lparr>scratch := Some x\<rparr>)"
    unfolding pi Dx by simp
  let ?st1 = "st\<lparr>scratch := Some x\<rparr>"
  have b1: "base ?st1 = concat (L @ take i P @ [x] @ drop i P @ (X' @ R))"
    using Suc.prems(1,3) X by simp
  have u1: "uniform sz (L @ P @ [x] @ (X' @ R))" using Suc.prems(2) X by simp
  obtain n' h' where sh: "ins_shift ?st1 c ?b sz (int i - 1) =
         Inr (?st1\<lparr>base := concat (L @ take n' P @ [h'] @ drop n' P @ (X' @ R))\<rparr>, int n' - 1)"
       and n': "n' \<le> i" and lh': "length h' = sz"
       and le: "n' > 0 \<longrightarrow> c (P ! (n' - 1)) x \<le> 0"
       and gt: "\<forall>k. n' \<le> k \<and> k < i \<longrightarrow> c (P ! k) x > 0"
    using ins_shift_ok [OF assms(1) lx assms(3) b1 u1, of c] Suc.prems(3) by auto
  let ?st2 = "?st1\<lparr>base := concat (L @ take n' P @ [h'] @ drop n' P @ (X' @ R))\<rparr>"
  let ?D2 = "L @ take n' P @ [h'] @ drop n' P @ (X' @ R)"
  have u2: "uniform sz ?D2" using Suc.prems(2) X lh' by (simp add: uniform_take uniform_drop)
  have pn: "eptr ?b (int n') sz = (Base, int (l + n') * int sz)" by (rule ptr_shift)
  have "my_memcpy ?st2 (Base, int (l + n') * int sz) (Scratch, int 0 * int sz) sz =
      Inr (set_block ?st2 Base (concat (?D2[l + n' := [x] ! 0])))"
    using u2 lx assms(1,3) n' Suc.prems(3) by (intro copy_elem) auto
  moreover have "?D2[l + n' := x] = L @ take n' P @ [x] @ drop n' P @ (X' @ R)"
    using n' Suc.prems(3) assms(3) by (intro hole_fill) auto
  ultimately have cp2: "my_memcpy ?st2 (eptr ?b (int n') sz) (Scratch, 0) sz =
      Inr (?st2\<lparr>base := concat (L @ take n' P @ [x] @ drop n' P @ (X' @ R))\<rparr>)"
    unfolding pn by simp
  let ?P' = "take n' P @ [x] @ drop n' P"
  let ?st3 = "?st2\<lparr>base := concat (L @ ?P' @ X' @ R)\<rparr>"
  have gt': "\<forall>k. n' \<le> k \<and> k < length P \<longrightarrow> c (P ! k) x > 0" using gt Suc.prems(3) by simp
  have n'': "n' \<le> length P" using n' Suc.prems(3) by simp
  have sP': "sorted_by c ?P'" and stP': "stable_of c (P @ [x]) ?P'"
    using insert_sorted_stable [OF assms(2) Suc.prems(7) n'' le gt'] by simp_all
  have u3: "uniform sz (L @ ?P' @ X' @ R)"
    using Suc.prems(2) X by (simp add: uniform_take uniform_drop)
  have "\<exists>out k'. ins_outer ?st3 c ?b nelem sz (Suc i) =
         Inr (?st3\<lparr>base := concat (L @ out @ R), scratch := Some k'\<rparr>) \<and>
       sorted_by c out \<and> stable_of c (?P' @ X') out"
  proof (rule Suc.hyps(1) [where k = x])
    show "d = nelem - Suc i" using Suc.hyps(2) by simp
    show "base ?st3 = concat (L @ ?P' @ X' @ R)" by simp
    show "uniform sz (L @ ?P' @ X' @ R)" by (rule u3)
    show "length ?P' = Suc i" using n' Suc.prems(3) by simp
    show "length X' = nelem - Suc i" using Suc.prems(4) X by simp
    show "scratch ?st3 = Some x" by simp
    show "length x = sz" by (rule lx)
    show "sorted_by c ?P'" by (rule sP')
  qed
  then obtain out k' where r: "ins_outer ?st3 c ?b nelem sz (Suc i) =
         Inr (?st3\<lparr>base := concat (L @ out @ R), scratch := Some k'\<rparr>)"
       "sorted_by c out" "stable_of c (?P' @ X') out"
    by blast
  have st: "stable_of c (P @ X) out"
    using stable_of_append [OF stP' r(3)] X by simp
  have "ins_outer st c ?b nelem sz i = Inr (?st3\<lparr>base := concat (L @ out @ R), scratch := Some k'\<rparr>)"
    apply (subst ins_outer.simps)
    using lt cp1 sh cp2 r(1) by simp
  then show ?case using r(2) st
    by (intro exI [of _ out] exI [of _ k']) simp
qed

lemma insertion_sort_ok:
  assumes "sz mod 8 = 0" "valid_compar c" "length L = l" "base st = concat (L @ X @ R)"
    "uniform sz (L @ X @ R)" "length X = nelem" "sz \<le> heap st"
  shows "\<exists>out. insertion_sort st (Base, int l * int sz) nelem sz c =
         Inr (st\<lparr>base := concat (L @ out @ R), scratch := None\<rparr>) \<and>
       sorted_by c out \<and> stable_of c X out"
proof (cases X)
  case Nil
  then have "nelem = 0" using assms(6) by simp
  then have "ins_outer (st\<lparr>scratch := malloc st sz\<rparr>) c (Base, int l * int sz) nelem sz 1 =
      Inr (st\<lparr>scratch := malloc st sz\<rparr>)"
    by (subst ins_outer.simps) simp
  then show ?thesis using Nil assms(4)
    by (intro exI [of _ "[]"]) (simp add: insertion_sort_def sorted_by_def)
next
  case (Cons x X')
  let ?st0 = "st\<lparr>scratch := malloc st sz\<rparr>"
  have m: "malloc st sz = Some (replicate sz 0)" using assms(7) by (simp add: malloc_def)
  obtain out k' where r: "ins_outer ?st0 c (Base, int l * int sz) nelem sz 1 =
         Inr (?st0\<lparr>base := concat (L @ out @ R), scratch := Some k'\<rparr>)"
       "sorted_by c out" "stable_of c ([x] @ X') out"
    using ins_outer_ok [OF assms(1,2,3), of ?st0 "[x]" X' R 1 nelem "replicate sz 0"]
      assms(4,5,6) Cons m by (auto simp: sorted_by_def)
  show ?thesis using r Cons
    by (intro exI [of _ out]) (simp add: insertion_sort_def)
qed

section \<open>Merge sort is a stable sort\<close>

lemma p_merge_sort_ok:
  assumes "sz mod 8 = 0" "valid_compar c"
  shows "base st = concat (L @ X @ R) \<Longrightarrow> uniform sz (L @ X @ R) \<Longrightarrow> length L = l \<Longrightarrow>
     length X = r - l + 1 \<Longrightarrow> nelem = r - l + 1 \<Longrightarrow> temp st = Some (concat T) \<Longrightarrow>
     uniform sz T \<Longrightarrow> length T = length (L @ X @ R) \<Longrightarrow> sz \<le> heap st \<Longrightarrow>
     \<exists>out T' sc. p_merge_sort st nelem sz c l r grain =
         Inr (st\<lparr>base := concat (L @ out @ R), temp := Some (concat T'), scratch := sc\<rparr>) \<and>
       sorted_by c out \<and> stable_of c X out \<and> uniform sz T' \<and> length T' = length T"
proof (induction "r - l" arbitrary: l r nelem st L X R T rule: less_induct)
  case less
  note prems = less.prems
  have triv: "st = st\<lparr>base := concat (L @ X @ R), temp := Some (concat T), scratch := scratch st\<rparr>"
    using prems(1,6) by simp
  show ?case
  proof (cases "r > l")
    case False
    then have "length X = 1" using prems(4) by simp
    then obtain x where X: "X = [x]" by (cases X) auto
    have "p_merge_sort st nelem sz c l r grain = Inr st"
      using False by (subst p_merge_sort.simps) simp
    then show ?thesis using triv X prems(7)
      by (intro exI [of _ X] exI [of _ T] exI [of _ "scratch st"]) (simp add: sorted_by_def)
  next
    case True
    define m where "m = (l + r) div 2"
    have m: "l \<le> m" "m < r" using True by (simp_all add: m_def)
    let ?A = "take (m - l + 1) X" and ?B = "drop (m - l + 1) X"
    have lA: "length ?A = m - l + 1" and lB: "length ?B = r - m"
      using prems(4) m by simp_all
    have XAB: "X = ?A @ ?B" by simp
    have eqX: "L @ ?A @ ?B @ R = L @ X @ R" by simp
    have lX: "length X = (m - l + 1) + (r - m)" using prems(4) m by simp
    have split: "\<exists>out T' sc.
        bnd (p_merge_sort st (m - l + 1) sz c l m grain) (\<lambda>st1.
        bnd (p_merge_sort st1 (r - m) sz c (m + 1) r grain) (\<lambda>st2.
        p_merge st2 sz c l r m)) =
         Inr (st\<lparr>base := concat (L @ out @ R), temp := Some (concat T'), scratch := sc\<rparr>) \<and>
       sorted_by c out \<and> stable_of c X out \<and> uniform sz T' \<and> length T' = length T"
    proof -
      have "\<exists>out T' sc. p_merge_sort st (m - l + 1) sz c l m grain =
           Inr (st\<lparr>base := concat (L @ out @ (?B @ R)), temp := Some (concat T'), scratch := sc\<rparr>) \<and>
         sorted_by c out \<and> stable_of c ?A out \<and> uniform sz T' \<and> length T' = length T"
      proof (rule less.hyps)
        show "m - l < r - l" using m by simp
        show "base st = concat (L @ ?A @ ?B @ R)" using prems(1) by (simp only: eqX)
        show "uniform sz (L @ ?A @ ?B @ R)" using prems(2) by (simp only: eqX)
        show "length L = l" by fact
        show "length ?A = m - l + 1" by (rule lA)
        show "m - l + 1 = m - l + 1" by simp
        show "temp st = Some (concat T)" by fact
        show "uniform sz T" by fact
        show "length T = length (L @ ?A @ ?B @ R)" using prems(8) by (simp only: eqX)
        show "sz \<le> heap st" by fact
      qed
      then obtain A' T1 sc1 where r1: "p_merge_sort st (m - l + 1) sz c l m grain =
           Inr (st\<lparr>base := concat (L @ A' @ (?B @ R)), temp := Some (concat T1), scratch := sc1\<rparr>)"
         and sA: "sorted_by c A'" and stA: "stable_of c ?A A'" and uT1: "uniform sz T1"
         and lT1: "length T1 = length T"
        by blast
      let ?st1 = "st\<lparr>base := concat (L @ A' @ (?B @ R)), temp := Some (concat T1), scratch := sc1\<rparr>"
      have lA': "length A' = m - l + 1" using stable_of_length [OF assms(2) stA] lA by simp
      have uA': "uniform sz A'" using stable_of_uniform [OF assms(2) stA] prems(2)
        by (simp add: uniform_take)
      have "\<exists>out T' sc. p_merge_sort ?st1 (r - m) sz c (m + 1) r grain =
           Inr (?st1\<lparr>base := concat ((L @ A') @ out @ R), temp := Some (concat T'), scratch := sc\<rparr>) \<and>
         sorted_by c out \<and> stable_of c ?B out \<and> uniform sz T' \<and> length T' = length T1"
      proof (rule less.hyps)
        show "r - (m + 1) < r - l" using m by simp
        show "base ?st1 = concat ((L @ A') @ ?B @ R)" by simp
        show "uniform sz ((L @ A') @ ?B @ R)" using prems(2) uA' by (simp add: uniform_drop)
        show "length (L @ A') = m + 1" using prems(3) lA' m by simp
        show "length ?B = r - (m + 1) + 1" using lB m by simp
        show "r - m = r - (m + 1) + 1" using m by simp
        show "temp ?st1 = Some (concat T1)" by simp
        show "uniform sz T1" by fact
        show "length T1 = length ((L @ A') @ ?B @ R)" using lT1 prems(8) lA' lB lX by simp
        show "sz \<le> heap ?st1" using prems(9) by simp
      qed
      then obtain B' T2 sc2 where r2: "p_merge_sort ?st1 (r - m) sz c (m + 1) r grain =
           Inr (?st1\<lparr>base := concat ((L @ A') @ B' @ R), temp := Some (concat T2), scratch := sc2\<rparr>)"
         and sB: "sorted_by c B'" and stB: "stable_of c ?B B'" and uT2: "uniform sz T2"
         and lT2: "length T2 = length T1"
        by blast
      let ?st2 = "?st1\<lparr>base := concat ((L @ A') @ B' @ R), temp := Some (concat T2), scratch := sc2\<rparr>"
      have lB': "length B' = r - m" using stable_of_length [OF assms(2) stB] lB by simp
      have uB': "uniform sz B'" using stable_of_uniform [OF assms(2) stB] prems(2)
        by (simp add: uniform_drop)
      let ?T3 = "overlay T2 (L @ A' @ B' @ R) l (m + 1 + (r - m))"
      have pm: "p_merge ?st2 sz c l r m =
         Inr (?st2\<lparr>temp := Some (concat ?T3), base := concat (L @ merged c A' B' @ R)\<rparr>)"
      proof (rule p_merge_ok)
        show "sz mod 8 = 0" by fact
        show "base ?st2 = concat (L @ A' @ B' @ R)" by simp
        show "uniform sz (L @ A' @ B' @ R)" using prems(2) uA' uB' by simp
        show "temp ?st2 = Some (concat T2)" by simp
        show "uniform sz T2" by fact
        show "length T2 = length (L @ A' @ B' @ R)" using lT2 lT1 prems(8) lA' lB' lX by simp
        show "length L = l" by fact
        show "length A' = m - l + 1" by fact
        show "length B' = r - m" by fact
        show "l \<le> m" by fact
      qed
      have uT3: "uniform sz ?T3" using uT2 prems(2) uA' uB' lT2 lT1 prems(3,8) lA' lB' lX m
        by (intro uniform_overlay) auto
      have so: "sorted_by c (merged c A' B')" using assms(2) sA sB by (rule sorted_merged)
      have "stable_of c (?A @ ?B) (merged c A' B')" using assms(2) sA stA stB by (rule stable_merged)
      then have sto: "stable_of c X (merged c A' B')" by simp
      show ?thesis
        apply (rule exI [of _ "merged c A' B'"])
        apply (rule exI [of _ ?T3])
        apply (rule exI [of _ sc2])
        using r1 r2 pm so sto uT3 lT2 lT1 by simp
    qed
    show ?thesis
    proof (cases "nelem > grain")
      case g: True
      have "p_merge_sort st nelem sz c l r grain =
        bnd (p_merge_sort st (m - l + 1) sz c l m grain) (\<lambda>st1.
        bnd (p_merge_sort st1 (r - m) sz c (m + 1) r grain) (\<lambda>st2.
        p_merge st2 sz c l r m))"
        using True g by (subst p_merge_sort.simps) (simp add: Let_def m_def)
      then show ?thesis using split by simp
    next
      case g: False
      have n1: "nelem > 1" using prems(5) True by simp
      show ?thesis
      proof (cases "nelem \<le> 32")
        case s: True
        have "p_merge_sort st nelem sz c l r grain =
            insertion_sort st (Base, int l * int sz) nelem sz c"
          using True g n1 s by (subst p_merge_sort.simps) simp
        moreover obtain out where "insertion_sort st (Base, int l * int sz) nelem sz c =
           Inr (st\<lparr>base := concat (L @ out @ R), scratch := None\<rparr>)"
           "sorted_by c out" "stable_of c X out"
          using insertion_sort_ok [OF assms(1,2) prems(3,1,2) _ prems(9), of nelem] prems(4,5)
          by auto
        ultimately show ?thesis using prems(6,7)
          by (intro exI [of _ out] exI [of _ T] exI [of _ None]) simp
      next
        case s: False
        have "p_merge_sort st nelem sz c l r grain =
          bnd (p_merge_sort st (m - l + 1) sz c l m grain) (\<lambda>st1.
          bnd (p_merge_sort st1 (r - m) sz c (m + 1) r grain) (\<lambda>st2.
          p_merge st2 sz c l r m))"
          using True g n1 s by (subst p_merge_sort.simps) (simp add: Let_def m_def)
        then show ?thesis using split by simp
      qed
    qed
  qed
qed

lemma concat_replicate_zeros: "concat (replicate n (replicate sz x)) = replicate (sz * n) x"
  by (induction n) (simp_all add: replicate_add)

lemma merge_grain_less: "0 < num \<Longrightarrow> merge_grain num < num"
  by (simp add: merge_grain_def drop_bit_eq_div)

lemma sorted_by_short: "length xs \<le> 1 \<Longrightarrow> sorted_by c xs"
  by (cases xs) (auto simp: sorted_by_def)

lemma merge_run_ok:
  assumes "sz mod 8 = 0" "valid_compar c" "base st = concat X" "uniform sz X" "length X = num"
    "sz * num \<le> heap st" "0 < num"
  shows "\<exists>out sc. bnd (p_merge_sort (st\<lparr>temp := malloc st (sz * num)\<rparr>) num sz c 0 (num - 1)
                  (merge_grain num)) (\<lambda>st'. Inr (st'\<lparr>temp := None\<rparr>)) =
           Inr (st\<lparr>base := concat out, temp := None, scratch := sc\<rparr>) \<and>
         sorted_by c out \<and> stable_of c X out"
proof -
  let ?T = "replicate num (replicate sz (0::byte))"
  let ?st0 = "st\<lparr>temp := malloc st (sz * num)\<rparr>"
  have m: "malloc st (sz * num) = Some (concat ?T)"
    using assms(6) by (simp add: malloc_def concat_replicate_zeros)
  have h: "sz \<le> heap st"
  proof -
    have "sz * 1 \<le> sz * num" using assms(7) by (intro mult_le_mono2) simp
    then have "sz \<le> sz * num" by (simp only: mult_1_right)
    then show ?thesis using assms(6) by (rule le_trans)
  qed
  have "\<exists>out T' sc. p_merge_sort ?st0 num sz c 0 (num - 1) (merge_grain num) =
         Inr (?st0\<lparr>base := concat ([] @ out @ []), temp := Some (concat T'), scratch := sc\<rparr>) \<and>
       sorted_by c out \<and> stable_of c X out \<and> uniform sz T' \<and> length T' = length ?T"
  proof (rule p_merge_sort_ok [OF assms(1,2)])
    show "base ?st0 = concat ([] @ X @ [])" using assms(3) by simp
    show "uniform sz ([] @ X @ [])" using assms(4) by simp
    show "length ([]::byte list list) = 0" by simp
    show "length X = num - 1 - 0 + 1" using assms(5,7) by simp
    show "num = num - 1 - 0 + 1" using assms(7) by simp
    show "temp ?st0 = Some (concat ?T)" using m by simp
    show "uniform sz ?T" by (simp add: uniform_def)
    show "length ?T = length ([] @ X @ [])" using assms(5) by simp
    show "sz \<le> heap ?st0" using h by simp
  qed
  then obtain out T' sc where "p_merge_sort ?st0 num sz c 0 (num - 1) (merge_grain num) =
         Inr (?st0\<lparr>base := concat ([] @ out @ []), temp := Some (concat T'), scratch := sc\<rparr>)"
       "sorted_by c out" "stable_of c X out"
    by blast
  then show ?thesis by (intro exI [of _ out] exI [of _ sc]) simp
qed

lemma emu_sort_local_merge_ok:
  assumes "sz mod 8 = 0" "valid_compar c" "base st = concat X" "uniform sz X" "length X = num"
    "sz * num \<le> heap st"
  shows "\<exists>st' out. emu_sort_local_merge st num sz c = Inr st' \<and> base st' = concat out \<and>
         sorted_by c out \<and> stable_of c X out"
proof (cases "num > 1")
  case True
  then obtain out sc where
    "bnd (p_merge_sort (st\<lparr>temp := malloc st (sz * num)\<rparr>) num sz c 0 (num - 1)
                  (merge_grain num)) (\<lambda>st'. Inr (st'\<lparr>temp := None\<rparr>)) =
           Inr (st\<lparr>base := concat out, temp := None, scratch := sc\<rparr>)"
    "sorted_by c out" "stable_of c X out"
    using merge_run_ok [OF assms] by auto
  then show ?thesis using True
    by (intro exI [of _ "st\<lparr>base := concat out, temp := None, scratch := sc\<rparr>"] exI [of _ out])
       (simp add: emu_sort_local_merge_def)
next
  case False
  then have "sorted_by c X" using assms(5) by (intro sorted_by_short) simp
  then show ?thesis using False assms(3)
    by (intro exI [of _ st] exI [of _ X]) (simp add: emu_sort_local_merge_def)
qed

section \<open>The exchange primitive\<close>

lemma length_xch8 [simp]: "length (xch8 bs pa pb) = length bs"
  by (simp add: xch8_def)

lemma nth_xch8:
  "x < length bs \<Longrightarrow> xch8 bs pa pb ! x =
     (if pa \<le> x \<and> x < pa + 8 then bs ! (x - pa + pb)
      else if pb \<le> x \<and> x < pb + 8 then bs ! (x - pb + pa) else bs ! x)"
  by (simp add: xch8_def)

lemma nth_upd_bytes:
  "off + length v \<le> length bs \<Longrightarrow> x < length bs \<Longrightarrow>
   upd_bytes bs off v ! x = (if off \<le> x \<and> x < off + length v then v ! (x - off) else bs ! x)"
  by (auto simp: upd_bytes_def nth_append min_def)

lemma upd_upd_xch8:
  assumes "pa + 8 \<le> pb \<or> pb + 8 \<le> pa" "pa + 8 \<le> length bs" "pb + 8 \<le> length bs"
  shows "upd_bytes (upd_bytes bs pa (take 8 (drop pb bs))) pb (take 8 (drop pa bs)) = xch8 bs pa pb"
proof (rule nth_equalityI)
  have l: "length (take 8 (drop pb bs)) = 8" "length (take 8 (drop pa bs)) = 8"
    using assms by simp_all
  have l1: "length (upd_bytes bs pa (take 8 (drop pb bs))) = length bs"
    using assms l by simp
  show "length (upd_bytes (upd_bytes bs pa (take 8 (drop pb bs))) pb (take 8 (drop pa bs))) =
        length (xch8 bs pa pb)"
    using assms l l1 by simp
  fix x
  assume "x < length (upd_bytes (upd_bytes bs pa (take 8 (drop pb bs))) pb (take 8 (drop pa bs)))"
  then have x: "x < length bs" using assms l l1 by simp
  have "upd_bytes (upd_bytes bs pa (take 8 (drop pb bs))) pb (take 8 (drop pa bs)) ! x =
        (if pb \<le> x \<and> x < pb + 8 then take 8 (drop pa bs) ! (x - pb)
         else upd_bytes bs pa (take 8 (drop pb bs)) ! x)"
    using nth_upd_bytes [of pb "take 8 (drop pa bs)" "upd_bytes bs pa (take 8 (drop pb bs))" x]
      assms l l1 x by simp
  moreover have "upd_bytes bs pa (take 8 (drop pb bs)) ! x =
        (if pa \<le> x \<and> x < pa + 8 then take 8 (drop pb bs) ! (x - pa) else bs ! x)"
    using nth_upd_bytes [of pa "take 8 (drop pb bs)" bs x] assms l x by simp
  ultimately show "upd_bytes (upd_bytes bs pa (take 8 (drop pb bs))) pb (take 8 (drop pa bs)) ! x =
        xch8 bs pa pb ! x"
    using assms x by (auto simp: nth_xch8 add.commute)
qed

lemma swap_iter:
  assumes "pa + 8 \<le> pb \<or> pb + 8 \<le> pa" "pa + 8 \<le> length (base st)" "pb + 8 \<le> length (base st)"
  shows "bnd (load st (Base, int pa) 8) (\<lambda>t.
         bnd (load st (Base, int pb) 8) (\<lambda>v.
         bnd (store st (Base, int pa) v) (\<lambda>st1.
         bnd (store st1 (Base, int pb) t) K))) = K (st\<lparr>base := xch8 (base st) pa pb\<rparr>)"
proof -
  let ?B = "base st"
  let ?t = "take 8 (drop pa ?B)" and ?v = "take 8 (drop pb ?B)"
  have b: "block st Base = Some ?B" by (simp add: block_def)
  have l1: "load st (Base, int pa) 8 = Inr ?t"
    using load_ok [OF b, of pa 8] assms by simp
  have l2: "load st (Base, int pb) 8 = Inr ?v"
    using load_ok [OF b, of pb 8] assms by simp
  let ?st1 = "set_block st Base (upd_bytes ?B pa ?v)"
  have s1: "store st (Base, int pa) ?v = Inr ?st1"
    using store_ok [OF b, of pa ?v] assms by simp
  have b1: "block ?st1 Base = Some (upd_bytes ?B pa ?v)" by (simp add: block_set_block)
  have s2: "store ?st1 (Base, int pb) ?t = Inr (set_block st Base (upd_bytes (upd_bytes ?B pa ?v) pb ?t))"
    using store_ok [OF b1, of pb ?t] assms by simp
  have "upd_bytes (upd_bytes ?B pa ?v) pb ?t = xch8 ?B pa pb"
    using assms by (rule upd_upd_xch8)
  then show ?thesis using l1 l2 s1 s2 by (simp add: set_block_def)
qed

lemma swap_loop_closed:
  assumes d: "oa + 8 \<le> ob \<or> ob + 8 \<le> oa"
  shows "k \<le> n \<Longrightarrow>
     (k < n \<longrightarrow> oa + 64 * (n - 1) + 8 \<le> length (base st) \<and>
                ob + 64 * (n - 1) + 8 \<le> length (base st)) \<Longrightarrow>
     swap_loop st (Base, int oa) (Base, int ob) (8 * n) (8 * k) =
       Inr (st\<lparr>base := foldl (\<lambda>bs k. xch8 bs (oa + 64 * k) (ob + 64 * k)) (base st) [k..<n]\<rparr>)"
proof (induction "n - k" arbitrary: k st)
  case 0
  then have "k = n" by simp
  then show ?case by (subst swap_loop.simps) simp
next
  case (Suc m)
  then have lt: "k < n" by simp
  let ?st1 = "st\<lparr>base := xch8 (base st) (oa + 64 * k) (ob + 64 * k)\<rparr>"
  have ib: "oa + 64 * k + 8 \<le> length (base st)" "ob + 64 * k + 8 \<le> length (base st)"
    using Suc.prems(2) lt by auto
  have dk: "oa + 64 * k + 8 \<le> ob + 64 * k \<or> ob + 64 * k + 8 \<le> oa + 64 * k" using d by auto
  have m: "m = n - Suc k" using Suc.hyps(2) by simp
  have le: "Suc k \<le> n" using lt by simp
  have ib1: "Suc k < n \<longrightarrow> oa + 64 * (n - 1) + 8 \<le> length (base ?st1) \<and>
                ob + 64 * (n - 1) + 8 \<le> length (base ?st1)"
    using Suc.prems(2) lt by simp
  have IH: "swap_loop ?st1 (Base, int oa) (Base, int ob) (8 * n) (8 * Suc k) =
       Inr (?st1\<lparr>base := foldl (\<lambda>bs k. xch8 bs (oa + 64 * k) (ob + 64 * k)) (base ?st1) [Suc k..<n]\<rparr>)"
    using Suc.hyps(1) [OF m le ib1] .
  have up: "[k..<n] = k # [Suc k..<n]" using lt by (simp add: upt_conv_Cons)
  have "swap_loop st (Base, int oa) (Base, int ob) (8 * n) (8 * k) =
        swap_loop ?st1 (Base, int oa) (Base, int ob) (8 * n) (8 * Suc k)"
    apply (subst swap_loop.simps)
    using lt swap_iter [OF dk ib, of "\<lambda>s. swap_loop s (Base, int oa) (Base, int ob) (8 * n) (8 * Suc k)"]
    by (simp add: add.commute)
  then show ?case using IH by (simp add: up)
qed

lemma swap_closed:
  assumes "sz mod 8 = 0" "oa + 8 \<le> ob \<or> ob + 8 \<le> oa"
    "0 < sz \<longrightarrow> oa + 8 * (sz - 8) + 8 \<le> length (base st) \<and> ob + 8 * (sz - 8) + 8 \<le> length (base st)"
  shows "swap st (Base, int oa) (Base, int ob) sz = Inr (st\<lparr>base := long_swaps (base st) oa ob sz\<rparr>)"
proof -
  from assms(1) have "8 dvd sz" by presburger
  then obtain n where n: "sz = 8 * n" by (auto elim: dvdE)
  have e: "0 < n \<Longrightarrow> 64 * (n - 1) = 8 * (8 * n - 8)" by (simp add: algebra_simps)
  have "swap_loop st (Base, int oa) (Base, int ob) (8 * n) (8 * 0) =
       Inr (st\<lparr>base := foldl (\<lambda>bs k. xch8 bs (oa + 64 * k) (ob + 64 * k)) (base st) [0..<n]\<rparr>)"
    using assms(2)
  proof (rule swap_loop_closed)
    show "0 \<le> n" by simp
    show "0 < n \<longrightarrow> oa + 64 * (n - 1) + 8 \<le> length (base st) \<and>
                ob + 64 * (n - 1) + 8 \<le> length (base st)"
      using assms(3) n e by auto
  qed
  then show ?thesis using assms(1) n by (simp add: swap_def long_swaps_def)
qed

lemma length_foldl_xch8 [simp]:
  "length (foldl (\<lambda>bs k. xch8 bs (f k) (g k)) bs ks) = length bs"
  by (induction ks arbitrary: bs) simp_all

lemma length_long_swaps [simp]: "length (long_swaps bs oa ob sz) = length bs"
  by (simp add: long_swaps_def)

lemma foldl_xch8_nth:
  assumes apart: "\<And>i j. i < n \<Longrightarrow> j < n \<Longrightarrow>
        oa + 64 * i + 8 \<le> ob + 64 * j \<or> ob + 64 * j + 8 \<le> oa + 64 * i"
    and ib: "\<And>j. j < n \<Longrightarrow> oa + 64 * j + 8 \<le> length bs \<and> ob + 64 * j + 8 \<le> length bs"
  shows "m \<le> n \<Longrightarrow> x < length bs \<Longrightarrow>
     foldl (\<lambda>bs k. xch8 bs (oa + 64 * k) (ob + 64 * k)) bs [0..<m] ! x =
       (if \<exists>j<m. oa + 64 * j \<le> x \<and> x < oa + 64 * j + 8 then bs ! (x - oa + ob)
        else if \<exists>j<m. ob + 64 * j \<le> x \<and> x < ob + 64 * j + 8 then bs ! (x - ob + oa)
        else bs ! x)"
proof (induction m arbitrary: x)
  case 0
  then show ?case by simp
next
  case (Suc m)
  let ?f = "\<lambda>bs k. xch8 bs (oa + 64 * k) (ob + 64 * k)"
  let ?P = "foldl ?f bs [0..<m]"
  have mn: "m < n" "m \<le> n" using Suc.prems(1) by simp_all
  have lp: "length ?P = length bs" by simp
  have IH: "y < length bs \<Longrightarrow> ?P ! y =
       (if \<exists>j<m. oa + 64 * j \<le> y \<and> y < oa + 64 * j + 8 then bs ! (y - oa + ob)
        else if \<exists>j<m. ob + 64 * j \<le> y \<and> y < ob + 64 * j + 8 then bs ! (y - ob + oa)
        else bs ! y)" for y
    using Suc.IH [OF mn(2)] by blast
  have step: "foldl ?f bs [0..<Suc m] ! x =
       (if oa + 64 * m \<le> x \<and> x < oa + 64 * m + 8 then ?P ! (x - (oa + 64 * m) + (ob + 64 * m))
        else if ob + 64 * m \<le> x \<and> x < ob + 64 * m + 8 then ?P ! (x - (ob + 64 * m) + (oa + 64 * m))
        else ?P ! x)"
    using Suc.prems(2) lp by (simp add: nth_xch8)
  have inA: "(\<exists>j<Suc m. oa + 64 * j \<le> y \<and> y < oa + 64 * j + 8) =
             ((oa + 64 * m \<le> y \<and> y < oa + 64 * m + 8) \<or> (\<exists>j<m. oa + 64 * j \<le> y \<and> y < oa + 64 * j + 8))" for y
    by (auto simp: less_Suc_eq)
  have inB: "(\<exists>j<Suc m. ob + 64 * j \<le> y \<and> y < ob + 64 * j + 8) =
             ((ob + 64 * m \<le> y \<and> y < ob + 64 * m + 8) \<or> (\<exists>j<m. ob + 64 * j \<le> y \<and> y < ob + 64 * j + 8))" for y
    by (auto simp: less_Suc_eq)
  consider (a) "oa + 64 * m \<le> x \<and> x < oa + 64 * m + 8"
    | (b) "\<not> (oa + 64 * m \<le> x \<and> x < oa + 64 * m + 8)" "ob + 64 * m \<le> x \<and> x < ob + 64 * m + 8"
    | (c) "\<not> (oa + 64 * m \<le> x \<and> x < oa + 64 * m + 8)" "\<not> (ob + 64 * m \<le> x \<and> x < ob + 64 * m + 8)"
    by blast
  then show ?case
  proof cases
    case a
    define y where "y = x - (oa + 64 * m) + (ob + 64 * m)"
    have yb: "ob + 64 * m \<le> y \<and> y < ob + 64 * m + 8" unfolding y_def using a by linarith
    have yl: "y < length bs" using yb ib [OF mn(1)] by simp
    have nA: "\<not> (\<exists>j<m. oa + 64 * j \<le> y \<and> y < oa + 64 * j + 8)"
    proof
      assume "\<exists>j<m. oa + 64 * j \<le> y \<and> y < oa + 64 * j + 8"
      then obtain j where j: "j < m" "oa + 64 * j \<le> y" "y < oa + 64 * j + 8" by blast
      have "j < n" using j(1) mn by simp
      from apart [OF this mn(1)] show False using j yb by auto
    qed
    have nB: "\<not> (\<exists>j<m. ob + 64 * j \<le> y \<and> y < ob + 64 * j + 8)"
    proof
      assume "\<exists>j<m. ob + 64 * j \<le> y \<and> y < ob + 64 * j + 8"
      then obtain j where j: "j < m" "ob + 64 * j \<le> y" "y < ob + 64 * j + 8" by blast
      then show False using yb by auto
    qed
    have py: "?P ! y = bs ! y" using IH [OF yl] nA nB by simp
    have ye: "y = x - oa + ob" unfolding y_def using a by linarith
    have lhs: "foldl ?f bs [0..<Suc m] ! x = ?P ! y" unfolding y_def using step a by simp
    have ex1: "\<exists>j<Suc m. oa + 64 * j \<le> x \<and> x < oa + 64 * j + 8"
      using a by (intro exI [of _ m]) simp
    have "foldl ?f bs [0..<Suc m] ! x = bs ! (x - oa + ob)" using lhs py ye by simp
    then show ?thesis using ex1 by (simp only: if_True)
  next
    case b
    define y where "y = x - (ob + 64 * m) + (oa + 64 * m)"
    have yb: "oa + 64 * m \<le> y \<and> y < oa + 64 * m + 8" unfolding y_def using b by linarith
    have yl: "y < length bs" using yb ib [OF mn(1)] by simp
    have nA: "\<not> (\<exists>j<m. oa + 64 * j \<le> y \<and> y < oa + 64 * j + 8)"
    proof
      assume "\<exists>j<m. oa + 64 * j \<le> y \<and> y < oa + 64 * j + 8"
      then obtain j where j: "j < m" "oa + 64 * j \<le> y" "y < oa + 64 * j + 8" by blast
      then show False using yb by auto
    qed
    have nB: "\<not> (\<exists>j<m. ob + 64 * j \<le> y \<and> y < ob + 64 * j + 8)"
    proof
      assume "\<exists>j<m. ob + 64 * j \<le> y \<and> y < ob + 64 * j + 8"
      then obtain j where j: "j < m" "ob + 64 * j \<le> y" "y < ob + 64 * j + 8" by blast
      have "j < n" using j(1) mn by simp
      from apart [OF mn(1) this] show False using j yb by auto
    qed
    have xA: "\<not> (\<exists>j<m. oa + 64 * j \<le> x \<and> x < oa + 64 * j + 8)"
    proof
      assume "\<exists>j<m. oa + 64 * j \<le> x \<and> x < oa + 64 * j + 8"
      then obtain j where j: "j < m" "oa + 64 * j \<le> x" "x < oa + 64 * j + 8" by blast
      have "j < n" using j(1) mn by simp
      from apart [OF this mn(1)] show False using j b by auto
    qed
    have py: "?P ! y = bs ! y" using IH [OF yl] nA nB by simp
    have ye: "y = x - ob + oa" unfolding y_def using b by linarith
    have lhs: "foldl ?f bs [0..<Suc m] ! x = ?P ! y" unfolding y_def using step b by simp
    have ex1: "\<not> (\<exists>j<Suc m. oa + 64 * j \<le> x \<and> x < oa + 64 * j + 8)"
      using inA [of x] b(1) xA by blast
    have ex2: "\<exists>j<Suc m. ob + 64 * j \<le> x \<and> x < ob + 64 * j + 8"
      using b(2) by (intro exI [of _ m]) simp
    have "foldl ?f bs [0..<Suc m] ! x = bs ! (x - ob + oa)" using lhs py ye by simp
    then show ?thesis using ex1 ex2 by (simp only: if_True if_False)
  next
    case c
    have lhs: "foldl ?f bs [0..<Suc m] ! x = ?P ! x" using step c by simp
    have e1: "(\<exists>j<Suc m. oa + 64 * j \<le> x \<and> x < oa + 64 * j + 8) =
              (\<exists>j<m. oa + 64 * j \<le> x \<and> x < oa + 64 * j + 8)"
      using inA [of x] c(1) by blast
    have e2: "(\<exists>j<Suc m. ob + 64 * j \<le> x \<and> x < ob + 64 * j + 8) =
              (\<exists>j<m. ob + 64 * j \<le> x \<and> x < ob + 64 * j + 8)"
      using inB [of x] c(2) by blast
    show ?thesis unfolding lhs e1 e2 using IH [OF Suc.prems(2)] .
  qed
qed

lemma in_longs_iff:
  "in_longs p (8 * n) x = (\<exists>j<n. p + 64 * j \<le> x \<and> x < p + 64 * j + 8)"
proof
  assume "in_longs p (8 * n) x"
  then have h: "p \<le> x" "(x - p) mod 64 < 8" "(x - p) div 64 < n" by (simp_all add: in_longs_def)
  have "x - p = 64 * ((x - p) div 64) + (x - p) mod 64" by simp
  then have "p + 64 * ((x - p) div 64) \<le> x \<and> x < p + 64 * ((x - p) div 64) + 8"
    using h(1,2) by linarith
  then show "\<exists>j<n. p + 64 * j \<le> x \<and> x < p + 64 * j + 8" using h(3) by blast
next
  assume "\<exists>j<n. p + 64 * j \<le> x \<and> x < p + 64 * j + 8"
  then obtain j where j: "j < n" "p + 64 * j \<le> x" "x < p + 64 * j + 8" by blast
  define r where "r = x - (p + 64 * j)"
  have x: "x - p = 64 * j + r" "r < 8" using j by (simp_all add: r_def)
  have "(x - p) div 64 = j" "(x - p) mod 64 = r" using x by simp_all
  then show "in_longs p (8 * n) x" using j x by (simp add: in_longs_def)
qed

lemma long_swaps_nth:
  assumes "sz mod 8 = 0" "longs_apart oa ob sz"
    "0 < sz \<longrightarrow> oa + 8 * (sz - 8) + 8 \<le> length bs \<and> ob + 8 * (sz - 8) + 8 \<le> length bs"
    "x < length bs"
  shows "long_swaps bs oa ob sz ! x =
       (if in_longs oa sz x then bs ! (x - oa + ob)
        else if in_longs ob sz x then bs ! (x - ob + oa) else bs ! x)"
proof -
  from assms(1) have "8 dvd sz" by presburger
  then obtain n where n: "sz = 8 * n" by (auto elim: dvdE)
  have ap: "\<And>i j. i < n \<Longrightarrow> j < n \<Longrightarrow>
        oa + 64 * i + 8 \<le> ob + 64 * j \<or> ob + 64 * j + 8 \<le> oa + 64 * i"
    using assms(2) n by (simp add: longs_apart_def)
  have ib: "oa + 64 * j + 8 \<le> length bs \<and> ob + 64 * j + 8 \<le> length bs" if "j < n" for j
  proof -
    have "64 * j \<le> 8 * (sz - 8)" using that n by simp
    moreover have "0 < sz" using that n by simp
    ultimately show ?thesis using assms(3) by simp
  qed
  have "foldl (\<lambda>bs k. xch8 bs (oa + 64 * k) (ob + 64 * k)) bs [0..<n] ! x =
       (if \<exists>j<n. oa + 64 * j \<le> x \<and> x < oa + 64 * j + 8 then bs ! (x - oa + ob)
        else if \<exists>j<n. ob + 64 * j \<le> x \<and> x < ob + 64 * j + 8 then bs ! (x - ob + oa)
        else bs ! x)"
    using ap ib order_refl assms(4) by (rule foldl_xch8_nth)
  then show ?thesis unfolding n in_longs_iff by (simp add: long_swaps_def)
qed

lemma swap_wide_positions:
  assumes "sz mod 8 = 0" "8 < sz" "longs_apart oa ob sz"
    "oa + 8 * (sz - 8) + 8 \<le> length bs" "ob + 8 * (sz - 8) + 8 \<le> length bs" "t < 8"
  shows "long_swaps bs oa ob sz ! (oa + 8 * (sz - 8) + t) = bs ! (ob + 8 * (sz - 8) + t)"
    and "long_swaps bs oa ob sz ! (ob + 8 * (sz - 8) + t) = bs ! (oa + 8 * (sz - 8) + t)"
    and "oa + sz \<le> ob \<Longrightarrow> long_swaps bs oa ob sz ! (oa + 8 + t) = bs ! (oa + 8 + t)"
proof -
  from assms(1) have "8 dvd sz" by presburger
  then obtain n where n: "sz = 8 * n" by (auto elim: dvdE)
  have n1: "1 < n" using assms(2) n by simp
  have e: "8 * (sz - 8) = 64 * (n - 1)" using n n1 by (simp add: algebra_simps)
  have ib: "0 < sz \<longrightarrow> oa + 8 * (sz - 8) + 8 \<le> length bs \<and> ob + 8 * (sz - 8) + 8 \<le> length bs"
    using assms(4,5) by simp
  have nth: "x < length bs \<Longrightarrow> long_swaps bs oa ob sz ! x =
       (if in_longs oa sz x then bs ! (x - oa + ob)
        else if in_longs ob sz x then bs ! (x - ob + oa) else bs ! x)" for x
    using assms(1,3) ib by (rule long_swaps_nth)
  have ap: "\<And>i j. i < n \<Longrightarrow> j < n \<Longrightarrow>
        oa + 64 * i + 8 \<le> ob + 64 * j \<or> ob + 64 * j + 8 \<le> oa + 64 * i"
    using assms(3) n by (simp add: longs_apart_def)
  let ?xa = "oa + 8 * (sz - 8) + t" and ?xb = "ob + 8 * (sz - 8) + t"
  have ia: "in_longs oa sz ?xa"
    unfolding n in_longs_iff using n1 e n assms(6) by (intro exI [of _ "n - 1"]) simp
  have ibb: "in_longs ob sz ?xb"
    unfolding n in_longs_iff using n1 e n assms(6) by (intro exI [of _ "n - 1"]) simp
  have nab: "\<not> in_longs oa sz ?xb"
  proof
    assume "in_longs oa sz ?xb"
    then obtain j where j: "j < n" "oa + 64 * j \<le> ?xb" "?xb < oa + 64 * j + 8"
      unfolding n in_longs_iff by blast
    have "n - 1 < n" using n1 by simp
    from ap [OF j(1) this] show False using j(2,3) e assms(6) by linarith
  qed
  have "?xa < length bs" using assms(4,6) by simp
  from nth [OF this] ia show "long_swaps bs oa ob sz ! ?xa = bs ! ?xb"
    by (simp add: algebra_simps)
  have "?xb < length bs" using assms(5,6) by simp
  from nth [OF this] ibb nab show "long_swaps bs oa ob sz ! ?xb = bs ! ?xa"
    by (simp add: algebra_simps)
  show "long_swaps bs oa ob sz ! (oa + 8 + t) = bs ! (oa + 8 + t)" if h: "oa + sz \<le> ob"
  proof -
    have s16: "16 \<le> sz" using n n1 by simp
    have na: "\<not> in_longs oa sz (oa + 8 + t)" using assms(6) by (simp add: in_longs_def)
    have nb: "\<not> in_longs ob sz (oa + 8 + t)" using assms(6) h s16 by (simp add: in_longs_def)
    have "sz \<le> 8 * (sz - 8)" using s16 by simp
    then have "oa + 8 + t < length bs" using assms(4,6) s16 by linarith
    from nth [OF this] na nb show ?thesis by simp
  qed
qed

lemma long_swaps_8: "long_swaps bs oa ob 8 = xch8 bs oa ob"
  by (simp add: long_swaps_def)

lemma swap_wide_fault:
  assumes "sz mod 8 = 0" "8 < sz" "\<not> (long_in_bounds st a (sz - 8) \<and> long_in_bounds st b (sz - 8))"
  shows "\<exists>e. swap st a b sz = Inl e"
proof (cases "swap st a b sz")
  case (Inl e)
  then show ?thesis by blast
next
  case (Inr st')
  from swap_wide_access [OF assms(1,2) Inr] assms(3) show ?thesis by blast
qed

section \<open>Exchanges go through the primitive\<close>

lemma bnd_InrE:
  assumes "bnd m f = Inr y"
  obtains x where "m = Inr x" "f x = Inr y"
  using assms by (cases m) simp_all

lemma swaps_along_append:
  "swaps_along sz ps st = Inr st1 \<Longrightarrow> swaps_along sz (ps @ qs) st = swaps_along sz qs st1"
proof (induction ps arbitrary: st)
  case Nil
  then show ?case by simp
next
  case (Cons p ps)
  obtain a b where p: "p = (a, b)" by (cases p)
  from Cons.prems obtain st0 where s: "swap st a b sz = Inr st0" "swaps_along sz ps st0 = Inr st1"
    unfolding p by (cases "swap st a b sz") simp_all
  show ?case using Cons.IH [OF s(2)] s(1) by (simp add: p)
qed

lemma reverse_loop_swaps:
  "reverse_loop st low sz i j = Inr st' \<Longrightarrow> \<exists>ps. swaps_along sz ps st = Inr st'"
proof (induction st low sz i j rule: reverse_loop.induct)
  case (1 st low sz i j)
  show ?case
  proof (cases "i < j")
    case True
    have eq: "reverse_loop st low sz i j =
        bnd (swap st (eptr (Base, 0) (int (i + low)) sz) (eptr (Base, 0) (int (j + low)) sz) sz)
             (\<lambda>st'. reverse_loop st' low sz (i + 1) (j - 1))"
      using True by (subst reverse_loop.simps) simp
    from "1.prems" [unfolded eq] obtain st1 where
      s: "swap st (eptr (Base, 0) (int (i + low)) sz) (eptr (Base, 0) (int (j + low)) sz) sz = Inr st1"
      and r: "reverse_loop st1 low sz (i + 1) (j - 1) = Inr st'"
      by (rule bnd_InrE)
    from "1.IH" [OF True s r] obtain ps where "swaps_along sz ps st1 = Inr st'" by blast
    then have "swaps_along sz ((eptr (Base, 0) (int (i + low)) sz, eptr (Base, 0) (int (j + low)) sz) # ps) st = Inr st'"
      using s by simp
    then show ?thesis by blast
  next
    case False
    then have "st' = st" using "1.prems" by (subst (asm) reverse_loop.simps) simp
    then have "swaps_along sz [] st = Inr st'" by simp
    then show ?thesis by blast
  qed
qed

lemma merge_worker_swaps:
  "merge_worker st compar asec m sz i e = Inr st' \<Longrightarrow> \<exists>ps. swaps_along sz ps st = Inr st'"
proof (induction st compar asec m sz i e rule: merge_worker.induct)
  case (1 st compar asec m sz i e)
  show ?case
  proof (cases "i < e")
    case True
    let ?l = "eptr (Base, 0) i sz" and ?r = "eptr (Base, 0) (i + int m) sz"
    have eq: "merge_worker st compar asec m sz i e =
           bnd (compar_at st compar sz ?l ?r) (\<lambda>c.
           bnd (if asec
                then (if c > 0 then swap st ?l ?r sz else Inr st)
                else (if c < 0 then swap st ?l ?r sz else Inr st)) (\<lambda>st'.
           merge_worker st' compar asec m sz (i + 1) e))"
      using True by (subst merge_worker.simps) (simp add: Let_def del: eptr_simp)
    from "1.prems" [unfolded eq] obtain c where
      c: "compar_at st compar sz ?l ?r = Inr c"
      and r0: "bnd (if asec
                then (if c > 0 then swap st ?l ?r sz else Inr st)
                else (if c < 0 then swap st ?l ?r sz else Inr st)) (\<lambda>st'.
           merge_worker st' compar asec m sz (i + 1) e) = Inr st'"
      by (rule bnd_InrE)
    from r0 obtain st1 where
      s: "(if asec then (if c > 0 then swap st ?l ?r sz else Inr st)
                else (if c < 0 then swap st ?l ?r sz else Inr st)) = Inr st1"
      and r: "merge_worker st1 compar asec m sz (i + 1) e = Inr st'"
      by (rule bnd_InrE)
    from "1.IH" [OF True refl refl c s r] obtain ps where ps: "swaps_along sz ps st1 = Inr st'"
      by blast
    show ?thesis
    proof (cases "st1 = st")
      case True
      then show ?thesis using ps by blast
    next
      case False
      then have "swap st ?l ?r sz = Inr st1" using s by (auto split: if_splits)
      then have "swaps_along sz ((?l, ?r) # ps) st = Inr st'" using ps by simp
      then show ?thesis by blast
    qed
  next
    case False
    then have "st' = st" using "1.prems" by (subst (asm) merge_worker.simps) simp
    then have "swaps_along sz [] st = Inr st'" by simp
    then show ?thesis by blast
  qed
qed

lemma swap_if_swaps:
  "(if P then swap st a b sz else Inr st) = Inr st1 \<Longrightarrow> \<exists>ps. swaps_along sz ps st = Inr st1"
proof (cases P)
  case True
  assume "(if P then swap st a b sz else Inr st) = Inr st1"
  then have "swaps_along sz [(a, b)] st = Inr st1" using True by simp
  then show ?thesis by blast
next
  case False
  assume "(if P then swap st a b sz else Inr st) = Inr st1"
  then have "swaps_along sz [] st = Inr st1" using False by simp
  then show ?thesis by blast
qed

lemma swaps_trans:
  "\<exists>ps. swaps_along sz ps st = Inr st1 \<Longrightarrow> \<exists>ps. swaps_along sz ps st1 = Inr st2 \<Longrightarrow>
   \<exists>ps. swaps_along sz ps st = Inr st2"
  using swaps_along_append by metis

lemma median3_swaps:
  assumes "median3 st compar sz lo mid hi = Inr st'"
  shows "\<exists>ps. swaps_along sz ps st = Inr st'"
proof -
  from assms [unfolded median3_def] obtain c1 where
    c1: "compar_at st compar sz mid lo = Inr c1" and
    r1: "bnd (if c1 < 0 then swap st lo mid sz else Inr st) (\<lambda>st1.
     bnd (compar_at st1 compar sz hi mid) (\<lambda>c2.
     if c2 < 0
     then bnd (swap st1 mid hi sz) (\<lambda>st2.
          bnd (compar_at st2 compar sz mid lo) (\<lambda>c3.
          if c3 < 0 then swap st2 mid lo sz else Inr st2))
     else Inr st1)) = Inr st'"
    by (rule bnd_InrE)
  from r1 obtain st1 where
    s1: "(if c1 < 0 then swap st lo mid sz else Inr st) = Inr st1"
    and r2: "bnd (compar_at st1 compar sz hi mid) (\<lambda>c2.
     if c2 < 0
     then bnd (swap st1 mid hi sz) (\<lambda>st2.
          bnd (compar_at st2 compar sz mid lo) (\<lambda>c3.
          if c3 < 0 then swap st2 mid lo sz else Inr st2))
     else Inr st1) = Inr st'"
    by (rule bnd_InrE)
  from r2 obtain c2 where
    c2: "compar_at st1 compar sz hi mid = Inr c2" and
    r: "(if c2 < 0
     then bnd (swap st1 mid hi sz) (\<lambda>st2.
          bnd (compar_at st2 compar sz mid lo) (\<lambda>c3.
          if c3 < 0 then swap st2 mid lo sz else Inr st2))
     else Inr st1) = Inr st'"
    by (rule bnd_InrE)
  have a: "\<exists>ps. swaps_along sz ps st = Inr st1" using s1 by (rule swap_if_swaps)
  have b: "\<exists>ps. swaps_along sz ps st1 = Inr st'"
  proof (cases "c2 < 0")
    case True
    from r True have r3: "bnd (swap st1 mid hi sz) (\<lambda>st2.
          bnd (compar_at st2 compar sz mid lo) (\<lambda>c3.
          if c3 < 0 then swap st2 mid lo sz else Inr st2)) = Inr st'" by simp
    from r3 obtain st2 where
      s2: "swap st1 mid hi sz = Inr st2"
      and r4: "bnd (compar_at st2 compar sz mid lo) (\<lambda>c3.
          if c3 < 0 then swap st2 mid lo sz else Inr st2) = Inr st'"
      by (rule bnd_InrE)
    from r4 obtain c3 where
      c3: "compar_at st2 compar sz mid lo = Inr c3" and
      s3: "(if c3 < 0 then swap st2 mid lo sz else Inr st2) = Inr st'"
      by (rule bnd_InrE)
    have "swaps_along sz [(mid, hi)] st1 = Inr st2" using s2 by simp
    then have "\<exists>ps. swaps_along sz ps st1 = Inr st2" by blast
    moreover have "\<exists>ps. swaps_along sz ps st2 = Inr st'" using s3 by (rule swap_if_swaps)
    ultimately show ?thesis by (rule swaps_trans)
  next
    case False
    then have "swaps_along sz [] st1 = Inr st'" using r by simp
    then show ?thesis by blast
  qed
  show ?thesis using a b by (rule swaps_trans)
qed

lemma partition_loop_swaps:
  "partition_loop st compar sz i j = Inr (st', i', j') \<Longrightarrow> \<exists>ps. swaps_along sz ps st = Inr st'"
proof (induction st compar sz i j rule: partition_loop.induct)
  case (1 st compar sz i j)
  show ?case
  proof (cases "i \<le> j")
    case True
    have eq: "partition_loop st compar sz i j =
           bnd (scan_up st compar sz i) (\<lambda>i1.
           bnd (scan_down st compar sz j) (\<lambda>j1.
           if i1 \<le> j1
           then bnd (if i1 < j1
                     then swap st (eptr (Base, 0) i1 sz) (eptr (Base, 0) j1 sz) sz
                     else Inr st) (\<lambda>st'.
                partition_loop st' compar sz (i1 + 1) (j1 - 1))
           else Inr (st, i1, j1)))"
      using True by (subst partition_loop.simps) (simp del: eptr_simp)
    from "1.prems" [unfolded eq] obtain i1 where
      u: "scan_up st compar sz i = Inr i1"
      and r0: "bnd (scan_down st compar sz j) (\<lambda>j1.
           if i1 \<le> j1
           then bnd (if i1 < j1
                     then swap st (eptr (Base, 0) i1 sz) (eptr (Base, 0) j1 sz) sz
                     else Inr st) (\<lambda>st'.
                partition_loop st' compar sz (i1 + 1) (j1 - 1))
           else Inr (st, i1, j1)) = Inr (st', i', j')"
      by (rule bnd_InrE)
    from r0 obtain j1 where
      d: "scan_down st compar sz j = Inr j1"
      and r: "(if i1 \<le> j1
           then bnd (if i1 < j1
                     then swap st (eptr (Base, 0) i1 sz) (eptr (Base, 0) j1 sz) sz
                     else Inr st) (\<lambda>st'.
                partition_loop st' compar sz (i1 + 1) (j1 - 1))
           else Inr (st, i1, j1)) = Inr (st', i', j')"
      by (rule bnd_InrE)
    show ?thesis
    proof (cases "i1 \<le> j1")
      case le: True
      from r le have r5: "bnd (if i1 < j1
                     then swap st (eptr (Base, 0) i1 sz) (eptr (Base, 0) j1 sz) sz
                     else Inr st) (\<lambda>st'.
                partition_loop st' compar sz (i1 + 1) (j1 - 1)) = Inr (st', i', j')"
        by (simp del: eptr_simp)
      from r5 obtain st1 where
        s: "(if i1 < j1 then swap st (eptr (Base, 0) i1 sz) (eptr (Base, 0) j1 sz) sz
             else Inr st) = Inr st1"
        and p: "partition_loop st1 compar sz (i1 + 1) (j1 - 1) = Inr (st', i', j')"
        by (rule bnd_InrE)
      have "\<exists>ps. swaps_along sz ps st = Inr st1" using s by (rule swap_if_swaps)
      moreover have "\<exists>ps. swaps_along sz ps st1 = Inr st'"
        using "1.IH" [OF True u d le s p] .
      ultimately show ?thesis by (rule swaps_trans)
    next
      case False
      then have "swaps_along sz [] st = Inr st'" using r by simp
      then show ?thesis by blast
    qed
  next
    case False
    then have "st' = st" using "1.prems" by (subst (asm) partition_loop.simps) simp
    then have "swaps_along sz [] st = Inr st'" by simp
    then show ?thesis by blast
  qed
qed

section \<open>Exchanges of 8-byte elements\<close>

lemma swap_elem:
  assumes "base st = concat B" "uniform 8 B" "i < length B" "j < length B" "i \<noteq> j"
  shows "swap st (Base, int i * 8) (Base, int j * 8) 8 = Inr (st\<lparr>base := concat (B[i := B ! j, j := B ! i])\<rparr>)"
proof -
  have b: "block st Base = Some (concat B)" using assms(1) by simp
  have l1: "load st (Base, int i * int 8) 8 = Inr (B ! i)" using b assms(2,3) by (rule load_elem)
  have l2: "load st (Base, int j * int 8) 8 = Inr (B ! j)" using b assms(2,4) by (rule load_elem)
  have li: "length (B ! i) = 8" "length (B ! j) = 8" using assms(2,3,4) by (simp_all add: uniform_nth)
  have bi: "i * 8 + 8 \<le> length (concat B)" "j * 8 + 8 \<le> length (concat B)"
    using assms(2,3,4) by (simp_all add: length_concat_uniform)
  have "store st (Base, int (i * 8)) (B ! j) = Inr (set_block st Base (upd_bytes (concat B) (i * 8) (B ! j)))"
    using b bi li by (intro store_ok) auto
  then have s1: "store st (Base, int i * 8) (B ! j) = Inr (st\<lparr>base := concat (B[i := B ! j])\<rparr>)"
    using upd_concat [OF assms(2,3) li(2)] by simp
  let ?st1 = "st\<lparr>base := concat (B[i := B ! j])\<rparr>"
  let ?B1 = "B[i := B ! j]"
  have u1: "uniform 8 ?B1" using assms(2) li(2) by (rule uniform_update)
  have b1: "block ?st1 Base = Some (concat ?B1)" by simp
  have "store ?st1 (Base, int (j * 8)) (B ! i) = Inr (set_block ?st1 Base (upd_bytes (concat ?B1) (j * 8) (B ! i)))"
    using b1 bi li u1 assms(4) by (intro store_ok) (auto simp: length_concat_uniform)
  moreover have "upd_bytes (concat ?B1) (j * 8) (B ! i) = concat (?B1[j := B ! i])"
    using u1 assms(4) li(1) by (intro upd_concat) auto
  ultimately have s2: "store ?st1 (Base, int j * 8) (B ! i) = Inr (st\<lparr>base := concat (?B1[j := B ! i])\<rparr>)"
    by simp
  have fin: "swap_loop st' p q 8 8 = Inr st'" for st' p q
    by (subst swap_loop.simps) simp
  have "swap_loop st (Base, int i * 8) (Base, int j * 8) 8 0 = Inr (st\<lparr>base := concat (?B1[j := B ! i])\<rparr>)"
    apply (subst swap_loop.simps)
    using l1 l2 s1 s2 fin by (simp add: long_at_def padd_def)
  then show ?thesis by (simp add: swap_def)
qed

lemma mset_swap_list:
  "i < length B \<Longrightarrow> j < length B \<Longrightarrow> mset (B[i := B ! j, j := B ! i]) = mset B"
  by (simp add: mset_swap)

lemma scan_up_ok:
  assumes "base st = concat B" "uniform 8 B" "scratch st = Some p" "length p = 8"
    "length B < 2 ^ 63"
  shows "i \<le> s \<Longrightarrow> s < length B \<Longrightarrow> 0 \<le> c (B ! s) p \<Longrightarrow>
     \<exists>i'. scan_up st c 8 (int i) = Inr (int i') \<and> i \<le> i' \<and> i' \<le> s \<and> 0 \<le> c (B ! i') p \<and>
          (\<forall>k. i \<le> k \<and> k < i' \<longrightarrow> c (B ! k) p < 0)"
proof (induction "s - i" arbitrary: i)
  case 0
  then have i: "i = s" by simp
  have "compar_at st c 8 (Base, int i * int 8) (Scratch, int 0 * int 8) = Inr (c (B ! i) ([p] ! 0))"
    using assms 0 i by (intro compar_elem) auto
  then have "scan_up st c 8 (int i) = Inr (int i)"
    using 0 i by (subst scan_up.simps) simp
  then show ?case using 0 i by (intro exI [of _ i]) simp
next
  case (Suc d)
  then have lt: "i < s" by simp
  have cmp: "compar_at st c 8 (Base, int i * int 8) (Scratch, int 0 * int 8) = Inr (c (B ! i) ([p] ! 0))"
    using assms Suc.prems lt by (intro compar_elem) auto
  show ?case
  proof (cases "c (B ! i) p < 0")
    case True
    obtain i' where r: "scan_up st c 8 (int (Suc i)) = Inr (int i')" "Suc i \<le> i'" "i' \<le> s"
        "0 \<le> c (B ! i') p" "\<forall>k. Suc i \<le> k \<and> k < i' \<longrightarrow> c (B ! k) p < 0"
    proof -
      have d: "d = s - Suc i" using Suc.hyps(2) by simp
      have le: "Suc i \<le> s" using lt by simp
      from Suc.hyps(1) [OF d le Suc.prems(2,3)] that show ?thesis by blast
    qed
    have ov: "int i + 1 < 2 ^ 63" using lt Suc.prems(2) assms(5) by simp
    have "scan_up st c 8 (int i) = Inr (int i')"
      apply (subst scan_up.simps)
      using cmp True ov r(1) by (simp add: add.commute)
    moreover have "\<forall>k. i \<le> k \<and> k < i' \<longrightarrow> c (B ! k) p < 0"
      using r(5) True by (metis Suc_leI le_neq_implies_less)
    ultimately show ?thesis using r(2,3,4) by (intro exI [of _ i']) simp
  next
    case False
    have "scan_up st c 8 (int i) = Inr (int i)"
      apply (subst scan_up.simps)
      using cmp False by simp
    then show ?thesis using False lt by (intro exI [of _ i]) simp
  qed
qed

lemma scan_down_ok:
  assumes "base st = concat B" "uniform 8 B" "scratch st = Some p" "length p = 8"
  shows "s \<le> j \<Longrightarrow> j < length B \<Longrightarrow> c (B ! s) p \<le> 0 \<Longrightarrow>
     \<exists>j'. scan_down st c 8 (int j) = Inr (int j') \<and> s \<le> j' \<and> j' \<le> j \<and> c (B ! j') p \<le> 0 \<and>
          (\<forall>k. j' < k \<and> k \<le> j \<longrightarrow> 0 < c (B ! k) p)"
proof (induction "j - s" arbitrary: j)
  case 0
  then have j: "j = s" by simp
  have "compar_at st c 8 (Base, int j * int 8) (Scratch, int 0 * int 8) = Inr (c (B ! j) ([p] ! 0))"
    using assms 0 j by (intro compar_elem) auto
  then have "scan_down st c 8 (int j) = Inr (int j)"
    using 0 j by (subst scan_down.simps) simp
  then show ?case using 0 j by (intro exI [of _ j]) simp
next
  case (Suc d)
  then have lt: "s < j" by simp
  then obtain j0 where j0: "j = Suc j0" by (cases j) auto
  have cmp: "compar_at st c 8 (Base, int j * int 8) (Scratch, int 0 * int 8) = Inr (c (B ! j) ([p] ! 0))"
    using assms Suc.prems lt by (intro compar_elem) auto
  show ?case
  proof (cases "0 < c (B ! j) p")
    case True
    obtain j' where r: "scan_down st c 8 (int j0) = Inr (int j')" "s \<le> j'" "j' \<le> j0"
        "c (B ! j') p \<le> 0" "\<forall>k. j' < k \<and> k \<le> j0 \<longrightarrow> 0 < c (B ! k) p"
    proof -
      have d: "d = j0 - s" using Suc.hyps(2) j0 by simp
      have le: "s \<le> j0" using lt j0 by simp
      have b: "j0 < length B" using Suc.prems(2) j0 by simp
      from Suc.hyps(1) [OF d le b Suc.prems(3)] that show ?thesis by blast
    qed
    have e: "int j - 1 = int j0" using j0 by simp
    have "scan_down st c 8 (int j) = Inr (int j')"
      apply (subst scan_down.simps)
      using cmp True r(1) e by simp
    moreover have "\<forall>k. j' < k \<and> k \<le> j \<longrightarrow> 0 < c (B ! k) p"
      using r(5) True j0 by (metis le_SucE)
    ultimately show ?thesis using r(2,3,4) j0 by (intro exI [of _ j']) simp
  next
    case False
    have "scan_down st c 8 (int j) = Inr (int j)"
      apply (subst scan_down.simps)
      using cmp False by simp
    then show ?thesis using False lt by (intro exI [of _ j]) simp
  qed
qed

lemma rev_range_id:
  assumes "b \<le> a"
  shows "rev_range B a b = B"
proof (rule nth_equalityI)
  show "length (rev_range B a b) = length B" by (simp add: rev_range_def)
  fix k
  assume "k < length (rev_range B a b)"
  then have k: "k < length B" by (simp add: rev_range_def)
  have "a \<le> k \<and> k \<le> b \<Longrightarrow> a + b - k = k" using assms by linarith
  then show "rev_range B a b ! k = B ! k" using k by (auto simp: rev_range_def)
qed

lemma length_rev_range [simp]: "length (rev_range B a b) = length B"
  by (simp add: rev_range_def)

lemma nth_rev_range:
  "k < length B \<Longrightarrow> rev_range B a b ! k = (if a \<le> k \<and> k \<le> b then B ! (a + b - k) else B ! k)"
  by (simp add: rev_range_def)

lemma rev_range_step:
  assumes "p < q" "q < length B"
  shows "rev_range (B[p := B ! q, q := B ! p]) (p + 1) (q - 1) = rev_range B p q"
proof (rule nth_equalityI)
  show "length (rev_range (B[p := B ! q, q := B ! p]) (p + 1) (q - 1)) = length (rev_range B p q)"
    by simp
  fix k
  assume "k < length (rev_range (B[p := B ! q, q := B ! p]) (p + 1) (q - 1))"
  then have k: "k < length B" by simp
  consider (lo) "k = p" | (hi) "k = q" | (mid) "p < k" "k < q" | (out) "k < p \<or> q < k"
    by linarith
  then show "rev_range (B[p := B ! q, q := B ! p]) (p + 1) (q - 1) ! k = rev_range B p q ! k"
  proof cases
    case lo
    then show ?thesis using assms k by (simp add: rev_range_def)
  next
    case hi
    have "\<not> q \<le> q - 1" "p + q - q = p" using assms by linarith+
    then show ?thesis using assms k hi by (simp add: rev_range_def)
  next
    case mid
    let ?B1 = "B[p := B ! q, q := B ! p]"
    have k1: "k < length ?B1" using k by simp
    have c1: "p + 1 \<le> k \<and> k \<le> q - 1" using mid by linarith
    have c2: "p \<le> k \<and> k \<le> q" using mid by linarith
    have e: "p + 1 + (q - 1) - k = p + q - k" using assms mid by linarith
    have ne: "p + q - k \<noteq> p" "p + q - k \<noteq> q" using mid by linarith+
    have "rev_range ?B1 (p + 1) (q - 1) ! k = ?B1 ! (p + 1 + (q - 1) - k)"
      using c1 by (simp only: nth_rev_range [OF k1] if_True simp_thms)
    also have "\<dots> = B ! (p + q - k)" unfolding e using ne by simp
    also have "\<dots> = rev_range B p q ! k"
      using c2 by (simp only: nth_rev_range [OF k] if_True simp_thms)
    finally show ?thesis .
  next
    case out
    then show ?thesis using assms k by (auto simp: rev_range_def)
  qed
qed

lemma reverse_loop_ok:
  "base st = concat B \<Longrightarrow> uniform 8 B \<Longrightarrow> i \<le> j + 1 \<Longrightarrow> low + j < length B \<Longrightarrow>
     reverse_loop st low 8 i j = Inr (st\<lparr>base := concat (rev_range B (low + i) (low + j))\<rparr>)"
proof (induction "j - i" arbitrary: st B i j rule: less_induct)
  case less
  show ?case
  proof (cases "i < j")
    case False
    then have "rev_range B (low + i) (low + j) = B" by (intro rev_range_id) simp
    moreover have "reverse_loop st low 8 i j = Inr st"
      using False by (subst reverse_loop.simps) simp
    ultimately show ?thesis using less.prems(1) by simp
  next
    case True
    let ?p = "low + i" and ?q = "low + j"
    let ?B1 = "B[?p := B ! ?q, ?q := B ! ?p]"
    let ?st1 = "st\<lparr>base := concat ?B1\<rparr>"
    have pe: "eptr (Base, 0) (int (i + low)) 8 = (Base, int ?p * 8)"
      "eptr (Base, 0) (int (j + low)) 8 = (Base, int ?q * 8)"
      by (simp_all add: add.commute)
    have sw: "swap st (Base, int ?p * 8) (Base, int ?q * 8) 8 = Inr ?st1"
      using less.prems(1,2)
    proof (rule swap_elem)
      show "?p < length B" using less.prems(4) True by simp
      show "?q < length B" using less.prems(4) by simp
      show "?p \<noteq> ?q" using True by simp
    qed
    have u1: "uniform 8 ?B1" using less.prems(2,4) True
      by (intro uniform_update) (simp_all add: uniform_nth)
    have IH: "reverse_loop ?st1 low 8 (i + 1) (j - 1) =
        Inr (?st1\<lparr>base := concat (rev_range ?B1 (low + (i + 1)) (low + (j - 1)))\<rparr>)"
    proof (rule less.hyps)
      show "j - 1 - (i + 1) < j - i" using True by simp
      show "base ?st1 = concat ?B1" by simp
      show "uniform 8 ?B1" by (rule u1)
      show "i + 1 \<le> j - 1 + 1" using True by simp
      show "low + (j - 1) < length ?B1" using less.prems(4) by simp
    qed
    have "rev_range ?B1 (?p + 1) (?q - 1) = rev_range B ?p ?q"
      using True less.prems(4) by (intro rev_range_step) simp_all
    moreover have "low + (i + 1) = ?p + 1" "low + (j - 1) = ?q - 1" using True by simp_all
    ultimately have r: "reverse_loop ?st1 low 8 (i + 1) (j - 1) =
        Inr (st\<lparr>base := concat (rev_range B ?p ?q)\<rparr>)"
      using IH by simp
    show ?thesis
      apply (subst reverse_loop.simps)
      unfolding pe using True sw r by simp
  qed
qed

lemma cas_pass_length [simp]: "length (cas_pass c asec m B i e) = length B"
proof (induction c asec m B i e rule: cas_pass.induct)
  case (1 c asec m B i e)
  show ?case
  proof (cases "i < e")
    case True
    then show ?thesis using "1.IH" by (subst cas_pass.simps) simp
  next
    case False
    then show ?thesis by (subst cas_pass.simps) simp
  qed
qed

lemma merge_worker_ok:
  "base st = concat B \<Longrightarrow> uniform 8 B \<Longrightarrow> e + m \<le> length B \<Longrightarrow> 0 < m \<Longrightarrow>
     merge_worker st c asec m 8 (int i) (int e) = Inr (st\<lparr>base := concat (cas_pass c asec m B i e)\<rparr>)"
proof (induction "e - i" arbitrary: st B i rule: less_induct)
  case less
  show ?case
  proof (cases "i < e")
    case False
    have "merge_worker st c asec m 8 (int i) (int e) = Inr st"
      using False by (subst merge_worker.simps) simp
    moreover have "cas_pass c asec m B i e = B"
      using False by (subst cas_pass.simps) simp
    ultimately show ?thesis using less.prems(1) by simp
  next
    case True
    define x where "x = (if asec then c (B ! i) (B ! (i + m)) > 0 else c (B ! i) (B ! (i + m)) < 0)"
    define B1 where "B1 = (if x then B[i := B ! (i + m), i + m := B ! i] else B)"
    let ?st1 = "st\<lparr>base := concat B1\<rparr>"
    have li: "i < length B" "i + m < length B" using True less.prems(3) by simp_all
    have bb: "block st Base = Some (concat B)" using less.prems(1) by simp
    have pe: "eptr (Base, 0) (int i) 8 = (Base, int i * 8)"
      "eptr (Base, 0) (int i + int m) 8 = (Base, int (i + m) * 8)"
      by simp_all
    have cmp: "compar_at st c 8 (Base, int i * 8) (Base, int (i + m) * 8) = Inr (c (B ! i) (B ! (i + m)))"
      using compar_elem [OF bb less.prems(2) li(1) bb less.prems(2) li(2), of c] by simp
    have sw: "swap st (Base, int i * 8) (Base, int (i + m) * 8) 8 =
        Inr (st\<lparr>base := concat (B[i := B ! (i + m), i + m := B ! i])\<rparr>)"
      using less.prems(1,2) li
    proof (rule swap_elem)
      show "i \<noteq> i + m" using less.prems(4) by simp
    qed
    have step: "(if asec
                then (if c (B ! i) (B ! (i + m)) > 0 then swap st (Base, int i * 8) (Base, int (i + m) * 8) 8 else Inr st)
                else (if c (B ! i) (B ! (i + m)) < 0 then swap st (Base, int i * 8) (Base, int (i + m) * 8) 8 else Inr st))
         = Inr ?st1"
      using sw less.prems(1) by (simp add: B1_def x_def)
    have u1: "uniform 8 B1" unfolding B1_def using less.prems(2) li
      by (auto intro!: uniform_update simp: uniform_nth)
    have l1: "length B1 = length B" by (simp add: B1_def)
    have IH: "merge_worker ?st1 c asec m 8 (int (i + 1)) (int e) =
        Inr (?st1\<lparr>base := concat (cas_pass c asec m B1 (i + 1) e)\<rparr>)"
    proof (rule less.hyps)
      show "e - (i + 1) < e - i" using True by simp
      show "base ?st1 = concat B1" by simp
      show "uniform 8 B1" by (rule u1)
      show "e + m \<le> length B1" using less.prems(3) l1 by simp
      show "0 < m" by (rule less.prems(4))
    qed
    have cp: "cas_pass c asec m B i e = cas_pass c asec m B1 (i + 1) e"
      using True by (subst cas_pass.simps) (simp add: B1_def x_def)
    have i1: "int i + 1 = int (i + 1)" by simp
    show ?thesis
      apply (subst merge_worker.simps)
      unfolding Let_def pe
      using True cmp step IH cp unfolding i1 by simp
  qed
qed

section \<open>Pivot selection and partition\<close>

lemma partition_loop_ok:
  assumes "uniform 8 B0" "length p = 8" "right < length B0" "length B0 < 2 ^ 63"
  shows "base st = concat B \<Longrightarrow> uniform 8 B \<Longrightarrow> length B = length B0 \<Longrightarrow> scratch st = Some p \<Longrightarrow>
     part_inv c p left right B i jn \<Longrightarrow>
     (i < jn \<longrightarrow> (\<exists>s. i \<le> s \<and> s \<le> right \<and> 0 \<le> c (B ! s) p) \<and>
                 (\<exists>s. left \<le> s \<and> s < jn \<and> c (B ! s) p \<le> 0)) \<Longrightarrow>
     \<exists>B' i' jn'. partition_loop st c 8 (int i) (int jn - 1) =
          Inr (st\<lparr>base := concat B'\<rparr>, int i', int jn' - 1) \<and>
        mset B' = mset B \<and> length B' = length B \<and> uniform 8 B' \<and>
        (\<forall>k. k < left \<or> right < k \<longrightarrow> B' ! k = B ! k) \<and>
        part_inv c p left right B' i' jn' \<and> jn' \<le> i' \<and> i \<le> i' \<and> jn' \<le> jn \<and>
        ((\<exists>m. i \<le> m \<and> m < jn \<and> c (B ! m) p = 0) \<longrightarrow> i < i' \<and> jn' < jn)"
proof (induction "jn - i" arbitrary: st B i jn rule: less_induct)
  case less
  note prems = less.prems
  note inv = prems(5) [unfolded part_inv_def]
  show ?case
  proof (cases "i < jn")
    case False
    have "partition_loop st c 8 (int i) (int jn - 1) = Inr (st, int i, int jn - 1)"
      using False by (subst partition_loop.simps) simp
    moreover have "st = st\<lparr>base := concat B\<rparr>" using prems(1) by simp
    ultimately have "partition_loop st c 8 (int i) (int jn - 1) =
        Inr (st\<lparr>base := concat B\<rparr>, int i, int jn - 1)" by simp
    then show ?thesis using False prems(2,5)
      by (intro exI [of _ B] exI [of _ i] exI [of _ jn]) simp
  next
    case True
    obtain su sd where su: "i \<le> su" "su \<le> right" "0 \<le> c (B ! su) p"
        and sd: "left \<le> sd" "sd < jn" "c (B ! sd) p \<le> 0"
      using prems(6) True by blast
    obtain j where j: "jn = Suc j" using True by (cases jn) auto
    have lB: "length B < 2 ^ 63" using prems(3) assms(4) by simp
    have rB: "right < length B" using prems(3) assms(3) by simp
    obtain i1 where i1: "scan_up st c 8 (int i) = Inr (int i1)" "i \<le> i1" "i1 \<le> su"
        "0 \<le> c (B ! i1) p" "\<forall>k. i \<le> k \<and> k < i1 \<longrightarrow> c (B ! k) p < 0"
    proof -
      have "su < length B" using su(2) rB by simp
      from scan_up_ok [where c = c and B = B and p = p and s = su, OF prems(1,2,4) assms(2) lB su(1) this su(3)] that show ?thesis by blast
    qed
    obtain j1 where j1: "scan_down st c 8 (int j) = Inr (int j1)" "sd \<le> j1" "j1 \<le> j"
        "c (B ! j1) p \<le> 0" "\<forall>k. j1 < k \<and> k \<le> j \<longrightarrow> 0 < c (B ! k) p"
    proof -
      have a: "sd \<le> j" using sd(2) j by simp
      have b: "j < length B" using inv j rB by simp
      from scan_down_ok [where c = c and B = B and p = p and s = sd, OF prems(1,2,4) assms(2) a b sd(3)] that show ?thesis by blast
    qed
    have ej: "int jn - 1 = int j" using j by simp
    have i1r: "i1 \<le> right" using i1(3) su(2) by simp
    have j1r: "j1 \<le> right" using j1(3) j inv by simp
    have j1l: "left \<le> j1" using j1(2) sd(1) by simp
    have i1l: "left \<le> i1" using i1(2) inv by simp
    show ?thesis
    proof (cases "i1 \<le> j1")
      case nle: False
      have "partition_loop st c 8 (int i) (int jn - 1) = Inr (st, int i1, int j1)"
        apply (subst partition_loop.simps)
        using True i1(1) j1(1) nle ej by simp
      moreover have "st = st\<lparr>base := concat B\<rparr>" using prems(1) by simp
      ultimately have run: "partition_loop st c 8 (int i) (int jn - 1) =
          Inr (st\<lparr>base := concat B\<rparr>, int i1, int (Suc j1) - 1)" by simp
      have pi: "part_inv c p left right B i1 (Suc j1)"
        unfolding part_inv_def
      proof (intro conjI allI impI)
        show "left \<le> i1" by (rule i1l)
        show "i1 \<le> right + 1" using i1r by simp
        show "left \<le> Suc j1" using j1l by simp
        show "Suc j1 \<le> right + 1" using j1r by simp
        show "c (B ! k) p \<le> 0" if "left \<le> k \<and> k < i1" for k
        proof (cases "k < i")
          case True
          then show ?thesis using inv that by simp
        next
          case False
          then have "c (B ! k) p < 0" using i1(5) that by simp
          then show ?thesis by simp
        qed
        show "0 \<le> c (B ! k) p" if "Suc j1 \<le> k \<and> k \<le> right" for k
        proof (cases "jn \<le> k")
          case True
          then show ?thesis using inv that by simp
        next
          case False
          then have "0 < c (B ! k) p" using j1(5) that j by simp
          then show ?thesis by simp
        qed
      qed
      have no_m: "\<not> (\<exists>m. i \<le> m \<and> m < jn \<and> c (B ! m) p = 0)"
      proof
        assume "\<exists>m. i \<le> m \<and> m < jn \<and> c (B ! m) p = 0"
        then obtain m where m: "i \<le> m" "m < jn" "c (B ! m) p = 0" by blast
        have "i1 \<le> m" using i1(5) m by (metis not_le_imp_less less_irrefl)
        moreover have "m \<le> j1" using j1(5) m j by (metis Suc_leI not_le_imp_less less_irrefl less_Suc_eq_le)
        ultimately show False using nle by simp
      qed
      have fin: "(\<exists>m. i \<le> m \<and> m < jn \<and> c (B ! m) p = 0) \<longrightarrow> i < i1 \<and> Suc j1 < jn"
        using no_m by blast
      have rest: "mset B = mset B \<and> length B = length B \<and> uniform 8 B \<and>
        (\<forall>k. k < left \<or> right < k \<longrightarrow> B ! k = B ! k) \<and>
        part_inv c p left right B i1 (Suc j1) \<and> Suc j1 \<le> i1 \<and> i \<le> i1 \<and> Suc j1 \<le> jn"
        using prems(2) pi nle i1(2) j1(3) j by simp
      show ?thesis
        apply (rule exI [of _ B], rule exI [of _ i1], rule exI [of _ "Suc j1"])
        using run rest fin by blast
    next
      case le: True
      define B1 where "B1 = (if i1 < j1 then B[i1 := B ! j1, j1 := B ! i1] else B)"
      have B1i: "B1 ! i1 = B ! j1" using le rB i1r j1r by (auto simp: B1_def)
      have B1j: "B1 ! j1 = B ! i1" using le rB i1r j1r by (auto simp: B1_def)
      have B1o: "k \<noteq> i1 \<Longrightarrow> k \<noteq> j1 \<Longrightarrow> B1 ! k = B ! k" for k by (simp add: B1_def)
      have lB1: "length B1 = length B" by (simp add: B1_def)
      have mB1: "mset B1 = mset B" using rB i1r j1r by (simp add: B1_def mset_swap)
      have uB1: "uniform 8 B1" using prems(2) mB1 uniform_mset by blast
      have sw: "(if int i1 < int j1 then swap st (eptr (Base, 0) (int i1) 8) (eptr (Base, 0) (int j1) 8) 8
                else Inr st) = Inr (st\<lparr>base := concat B1\<rparr>)"
      proof (cases "i1 < j1")
        case True
        have "swap st (Base, int i1 * 8) (Base, int j1 * 8) 8 =
            Inr (st\<lparr>base := concat (B[i1 := B ! j1, j1 := B ! i1])\<rparr>)"
          using prems(1,2) _ _ _
        proof (rule swap_elem)
          show "i1 < length B" using i1r rB by simp
          show "j1 < length B" using j1r rB by simp
          show "i1 \<noteq> j1" using True by simp
        qed
        then show ?thesis using True by (simp add: B1_def)
      next
        case False
        then show ?thesis using prems(1) by (simp add: B1_def)
      qed
      let ?st1 = "st\<lparr>base := concat B1\<rparr>"
      have pi1: "part_inv c p left right B1 (Suc i1) j1"
        unfolding part_inv_def
      proof (intro conjI allI impI)
        show "left \<le> Suc i1" using i1l by simp
        show "Suc i1 \<le> right + 1" using i1r by simp
        show "left \<le> j1" by (rule j1l)
        show "j1 \<le> right + 1" using j1r by simp
        show "c (B1 ! k) p \<le> 0" if "left \<le> k \<and> k < Suc i1" for k
        proof (cases "k = i1")
          case True
          then show ?thesis using B1i j1(4) by simp
        next
          case False
          then have k: "k < i1" using that by simp
          then have "B1 ! k = B ! k" using le by (intro B1o) auto
          moreover have "c (B ! k) p \<le> 0"
          proof (cases "k < i")
            case True
            then show ?thesis using inv that by simp
          next
            case False
            then have "c (B ! k) p < 0" using i1(5) k by simp
            then show ?thesis by simp
          qed
          ultimately show ?thesis by simp
        qed
        show "0 \<le> c (B1 ! k) p" if "j1 \<le> k \<and> k \<le> right" for k
        proof (cases "k = j1")
          case True
          then show ?thesis using B1j i1(4) by simp
        next
          case False
          then have k: "j1 < k" using that by simp
          then have "B1 ! k = B ! k" using le by (intro B1o) auto
          moreover have "0 \<le> c (B ! k) p"
          proof (cases "jn \<le> k")
            case True
            then show ?thesis using inv that by simp
          next
            case False
            then have "0 < c (B ! k) p" using j1(5) k j by simp
            then show ?thesis by simp
          qed
          ultimately show ?thesis by simp
        qed
      qed
      have sent: "Suc i1 < j1 \<longrightarrow> (\<exists>s. Suc i1 \<le> s \<and> s \<le> right \<and> 0 \<le> c (B1 ! s) p) \<and>
                 (\<exists>s. left \<le> s \<and> s < j1 \<and> c (B1 ! s) p \<le> 0)"
      proof
        assume a: "Suc i1 < j1"
        have "Suc i1 \<le> j1 \<and> j1 \<le> right \<and> 0 \<le> c (B1 ! j1) p" using a j1r B1j i1(4) by simp
        moreover have "left \<le> i1 \<and> i1 < j1 \<and> c (B1 ! i1) p \<le> 0" using a i1l B1i j1(4) by simp
        ultimately show "(\<exists>s. Suc i1 \<le> s \<and> s \<le> right \<and> 0 \<le> c (B1 ! s) p) \<and>
                 (\<exists>s. left \<le> s \<and> s < j1 \<and> c (B1 ! s) p \<le> 0)" by blast
      qed
      have "\<exists>B' i' jn'. partition_loop ?st1 c 8 (int (Suc i1)) (int j1 - 1) =
          Inr (?st1\<lparr>base := concat B'\<rparr>, int i', int jn' - 1) \<and>
        mset B' = mset B1 \<and> length B' = length B1 \<and> uniform 8 B' \<and>
        (\<forall>k. k < left \<or> right < k \<longrightarrow> B' ! k = B1 ! k) \<and>
        part_inv c p left right B' i' jn' \<and> jn' \<le> i' \<and> Suc i1 \<le> i' \<and> jn' \<le> j1 \<and>
        ((\<exists>m. Suc i1 \<le> m \<and> m < j1 \<and> c (B1 ! m) p = 0) \<longrightarrow> Suc i1 < i' \<and> jn' < j1)"
      proof (rule less.hyps)
        show "j1 - Suc i1 < jn - i" using i1(2) j1(3) j True by simp
        show "base ?st1 = concat B1" by simp
        show "uniform 8 B1" by (rule uB1)
        show "length B1 = length B0" using lB1 prems(3) by simp
        show "scratch ?st1 = Some p" using prems(4) by simp
        show "part_inv c p left right B1 (Suc i1) j1" by (rule pi1)
        show "Suc i1 < j1 \<longrightarrow> (\<exists>s. Suc i1 \<le> s \<and> s \<le> right \<and> 0 \<le> c (B1 ! s) p) \<and>
                 (\<exists>s. left \<le> s \<and> s < j1 \<and> c (B1 ! s) p \<le> 0)" by (rule sent)
      qed
      then obtain B' i' jn' where r: "partition_loop ?st1 c 8 (int (Suc i1)) (int j1 - 1) =
          Inr (?st1\<lparr>base := concat B'\<rparr>, int i', int jn' - 1)"
        "mset B' = mset B1" "length B' = length B1" "uniform 8 B'"
        "\<forall>k. k < left \<or> right < k \<longrightarrow> B' ! k = B1 ! k"
        "part_inv c p left right B' i' jn'" "jn' \<le> i'" "Suc i1 \<le> i'" "jn' \<le> j1"
        by blast
      have run: "partition_loop st c 8 (int i) (int jn - 1) =
          Inr (st\<lparr>base := concat B'\<rparr>, int i', int jn' - 1)"
        apply (subst partition_loop.simps)
        using True i1(1) j1(1) le ej sw r(1) by (simp add: add.commute)
      have out: "\<forall>k. k < left \<or> right < k \<longrightarrow> B' ! k = B ! k"
      proof (intro allI impI)
        fix k assume k: "k < left \<or> right < k"
        then have "k \<noteq> i1" "k \<noteq> j1" using i1l i1r j1l j1r by auto
        then have "B1 ! k = B ! k" by (rule B1o)
        moreover have "B' ! k = B1 ! k" using r(5) k by blast
        ultimately show "B' ! k = B ! k" by simp
      qed
      have fin: "(\<exists>m. i \<le> m \<and> m < jn \<and> c (B ! m) p = 0) \<longrightarrow> i < i' \<and> jn' < jn"
        using r(8,9) i1(2) j1(3) j by simp
      have rest: "mset B' = mset B \<and> length B' = length B \<and> uniform 8 B' \<and>
        part_inv c p left right B' i' jn' \<and> jn' \<le> i' \<and> i \<le> i' \<and> jn' \<le> jn"
        using r(2,3,4,6,7,8,9) mB1 lB1 i1(2) j1(3) j by simp
      show ?thesis
        apply (rule exI [of _ B'], rule exI [of _ i'], rule exI [of _ jn'])
        using run rest out fin by blast
    qed
  qed
qed

lemma swap_elem_if:
  assumes "base st = concat B" "uniform 8 B" "i < length B" "j < length B" "valid_compar c"
  shows "\<exists>B'. (if c (B ! i) (B ! j) < 0 then swap st (Base, int j * 8) (Base, int i * 8) 8 else Inr st) =
            Inr (st\<lparr>base := concat B'\<rparr>) \<and>
          B' = (if c (B ! i) (B ! j) < 0 then B[j := B ! i, i := B ! j] else B)"
proof (cases "c (B ! i) (B ! j) < 0")
  case True
  then have "i \<noteq> j" using vc_refl [OF assms(5), of "B ! i"] by auto
  then have "swap st (Base, int j * 8) (Base, int i * 8) 8 = Inr (st\<lparr>base := concat (B[j := B ! i, i := B ! j])\<rparr>)"
    using assms(1,2,3,4) by (intro swap_elem) auto
  then show ?thesis using True by simp
next
  case False
  then show ?thesis using assms(1) by simp
qed

lemma median3_ok:
  assumes vc: "valid_compar c" and b: "base st = concat B" and u: "uniform 8 B"
    and l: "left \<le> m" "m \<le> right" "right < length B"
  shows "\<exists>Bm. median3 st c 8 (Base, int left * 8) (Base, int m * 8) (Base, int right * 8) =
            Inr (st\<lparr>base := concat Bm\<rparr>) \<and> uniform 8 Bm \<and> med_post c B Bm left m right"
proof -
  have lt: "left < length B" "m < length B" using l by simp_all
  have bb: "block st Base = Some (concat B)" using b by simp
  have c1: "compar_at st c 8 (Base, int m * 8) (Base, int left * 8) = Inr (c (B ! m) (B ! left))"
    using compar_elem [OF bb u lt(2) bb u lt(1), of c] by simp
  define B1 where "B1 = (if c (B ! m) (B ! left) < 0 then B[left := B ! m, m := B ! left] else B)"
  have s1: "(if c (B ! m) (B ! left) < 0 then swap st (Base, int left * 8) (Base, int m * 8) 8 else Inr st) =
            Inr (st\<lparr>base := concat B1\<rparr>)"
    using swap_elem_if [OF b u lt(2) lt(1) vc] by (simp add: B1_def)
  let ?st1 = "st\<lparr>base := concat B1\<rparr>"
  have m1: "mset B1 = mset B" using lt by (simp add: B1_def mset_swap)
  have l1: "length B1 = length B" by (simp add: B1_def)
  have u1: "uniform 8 B1" using u m1 uniform_mset by blast
  have o1: "k \<noteq> left \<Longrightarrow> k \<noteq> m \<Longrightarrow> B1 ! k = B ! k" for k by (simp add: B1_def)
  have p1: "c (B1 ! left) (B1 ! m) \<le> 0"
  proof (cases "c (B ! m) (B ! left) < 0")
    case True
    then have "left \<noteq> m" using vc_refl [OF vc, of "B ! m"] by auto
    then have "B1 ! left = B ! m" "B1 ! m = B ! left" using True lt by (simp_all add: B1_def)
    then show ?thesis using True by simp
  next
    case False
    then have "c (B ! left) (B ! m) \<le> 0" using vc_flip_le [OF vc, of "B ! left" "B ! m"] by simp
    then show ?thesis using False by (simp add: B1_def)
  qed
  have bb1: "block ?st1 Base = Some (concat B1)" by simp
  have lt1: "right < length B1" "m < length B1" "left < length B1" using l l1 by simp_all
  have c2: "compar_at ?st1 c 8 (Base, int right * 8) (Base, int m * 8) = Inr (c (B1 ! right) (B1 ! m))"
    using compar_elem [OF bb1 u1 lt1(1) bb1 u1 lt1(2), of c] by simp
  show ?thesis
  proof (cases "c (B1 ! right) (B1 ! m) < 0")
    case False
    have "c (B1 ! m) (B1 ! right) \<le> 0"
      using False vc_flip_le [OF vc, of "B1 ! m" "B1 ! right"] by simp
    then have "med_post c B B1 left m right"
      unfolding med_post_def using m1 l1 o1 p1 by simp
    moreover have "median3 st c 8 (Base, int left * 8) (Base, int m * 8) (Base, int right * 8) =
            Inr ?st1"
      unfolding median3_def using c1 s1 c2 False by simp
    ultimately show ?thesis using u1 by blast
  next
    case True
    then have mr: "m \<noteq> right" using vc_refl [OF vc, of "B1 ! m"] by auto
    define B2 where "B2 = B1[m := B1 ! right, right := B1 ! m]"
    have s2: "swap ?st1 (Base, int m * 8) (Base, int right * 8) 8 = Inr (?st1\<lparr>base := concat B2\<rparr>)"
      unfolding B2_def using _ u1 lt1(2) lt1(1) mr by (rule swap_elem) simp
    let ?st2 = "st\<lparr>base := concat B2\<rparr>"
    have m2: "mset B2 = mset B1" using lt1 by (simp add: B2_def mset_swap)
    have l2: "length B2 = length B" using l1 by (simp add: B2_def)
    have u2: "uniform 8 B2" using u1 m2 uniform_mset by blast
    have o2: "k \<noteq> m \<Longrightarrow> k \<noteq> right \<Longrightarrow> B2 ! k = B1 ! k" for k by (simp add: B2_def)
    have v2: "B2 ! m = B1 ! right" "B2 ! right = B1 ! m" using mr lt1 by (simp_all add: B2_def)
    have p2: "c (B2 ! m) (B2 ! right) \<le> 0" using True v2 by simp
    have bb2: "block ?st2 Base = Some (concat B2)" by simp
    have lt2: "right < length B2" "m < length B2" "left < length B2" using l l2 by simp_all
    have c3: "compar_at ?st2 c 8 (Base, int m * 8) (Base, int left * 8) = Inr (c (B2 ! m) (B2 ! left))"
      using compar_elem [OF bb2 u2 lt2(2) bb2 u2 lt2(3), of c] by simp
    define B3 where "B3 = (if c (B2 ! m) (B2 ! left) < 0 then B2[m := B2 ! left, left := B2 ! m] else B2)"
    have s3: "(if c (B2 ! m) (B2 ! left) < 0 then swap ?st2 (Base, int m * 8) (Base, int left * 8) 8 else Inr ?st2) =
            Inr (?st2\<lparr>base := concat B3\<rparr>)"
    proof (cases "c (B2 ! m) (B2 ! left) < 0")
      case t: True
      then have "m \<noteq> left" using vc_refl [OF vc, of "B2 ! m"] by auto
      then have "swap ?st2 (Base, int m * 8) (Base, int left * 8) 8 =
           Inr (?st2\<lparr>base := concat (B2[m := B2 ! left, left := B2 ! m])\<rparr>)"
        using u2 lt2 by (intro swap_elem) auto
      then show ?thesis using t by (simp add: B3_def)
    next
      case False
      then show ?thesis by (simp add: B3_def)
    qed
    have m3: "mset B3 = mset B2" using lt2 by (simp add: B3_def mset_swap)
    have l3: "length B3 = length B" using l2 by (simp add: B3_def)
    have u3: "uniform 8 B3" using u2 m3 uniform_mset by blast
    have o3: "k \<noteq> left \<Longrightarrow> k \<noteq> m \<Longrightarrow> B3 ! k = B2 ! k" for k by (simp add: B3_def)
    have p3: "c (B3 ! left) (B3 ! m) \<le> 0 \<and> c (B3 ! m) (B3 ! right) \<le> 0"
    proof (cases "c (B2 ! m) (B2 ! left) < 0")
      case t: True
      then have ml: "m \<noteq> left" using vc_refl [OF vc, of "B2 ! m"] by auto
      then have lr: "left \<noteq> right" using l mr by simp
      have v3: "B3 ! left = B2 ! m" "B3 ! m = B2 ! left" "B3 ! right = B2 ! right"
        using t ml lr mr lt2 by (simp_all add: B3_def)
      have "B2 ! left = B1 ! left" using ml lr by (intro o2) auto
      then have "c (B2 ! left) (B2 ! right) \<le> 0" using p1 v2 by simp
      then show ?thesis using t v3 by simp
    next
      case f: False
      then have "c (B2 ! left) (B2 ! m) \<le> 0" using vc_flip_le [OF vc, of "B2 ! left" "B2 ! m"] by simp
      then show ?thesis using f p2 by (simp add: B3_def)
    qed
    have "med_post c B B3 left m right"
      unfolding med_post_def using m1 m2 m3 l3 o1 o2 o3 p3 by simp
    moreover have "median3 st c 8 (Base, int left * 8) (Base, int m * 8) (Base, int right * 8) =
            Inr (st\<lparr>base := concat B3\<rparr>)"
      unfolding median3_def using c1 s1 c2 True s2 c3 s3 by simp
    ultimately show ?thesis using u3 by blast
  qed
qed

lemma partition_loop_initial:
  assumes "valid_compar c" "base st = concat B" "uniform 8 B" "scratch st = Some (B ! s)"
    "l \<le> s" "s \<le> r" "r < length B" "length B < 2 ^ 63"
  shows "\<exists>B' i' jn'. partition_loop st c 8 (int l) (int r) =
            Inr (st\<lparr>base := concat B'\<rparr>, int i', int jn' - 1) \<and>
          mset B' = mset B \<and> jn' \<le> i' \<and>
          (\<forall>k. k < l \<or> r < k \<longrightarrow> B' ! k = B ! k) \<and>
          (\<forall>k. l \<le> k \<and> k < i' \<longrightarrow> c (B' ! k) (B ! s) \<le> 0) \<and>
          (\<forall>k. jn' \<le> k \<and> k \<le> r \<longrightarrow> 0 \<le> c (B' ! k) (B ! s))"
proof -
  have sl: "s < length B" using assms(6,7) by simp
  have lp: "length (B ! s) = 8" using assms(3) sl by (rule uniform_nth)
  have z: "c (B ! s) (B ! s) = 0" using assms(1) by (rule vc_refl)
  have inv: "part_inv c (B ! s) l r B l (r + 1)"
    using assms(5,6) by (simp add: part_inv_def)
  have sen: "l < r + 1 \<longrightarrow> (\<exists>s'. l \<le> s' \<and> s' \<le> r \<and> 0 \<le> c (B ! s') (B ! s)) \<and>
                 (\<exists>s'. l \<le> s' \<and> s' < r + 1 \<and> c (B ! s') (B ! s) \<le> 0)"
    using assms(5,6) z by (intro impI conjI exI [of _ s]) simp_all
  have "\<exists>B' i' jn'. partition_loop st c 8 (int l) (int (r + 1) - 1) =
          Inr (st\<lparr>base := concat B'\<rparr>, int i', int jn' - 1) \<and>
        mset B' = mset B \<and> length B' = length B \<and> uniform 8 B' \<and>
        (\<forall>k. k < l \<or> r < k \<longrightarrow> B' ! k = B ! k) \<and>
        part_inv c (B ! s) l r B' i' jn' \<and> jn' \<le> i' \<and> l \<le> i' \<and> jn' \<le> r + 1 \<and>
        ((\<exists>m. l \<le> m \<and> m < r + 1 \<and> c (B ! m) (B ! s) = 0) \<longrightarrow> l < i' \<and> jn' < r + 1)"
    using assms(3) lp assms(7,8) assms(2,3) refl assms(4) inv sen
    by (rule partition_loop_ok)
  then obtain B' i' jn' where r: "partition_loop st c 8 (int l) (int (r + 1) - 1) =
          Inr (st\<lparr>base := concat B'\<rparr>, int i', int jn' - 1)"
      "mset B' = mset B" "\<forall>k. k < l \<or> r < k \<longrightarrow> B' ! k = B ! k"
      "part_inv c (B ! s) l r B' i' jn'" "jn' \<le> i'"
    by blast
  have e: "int (r + 1) - 1 = int r" by simp
  show ?thesis
    using r unfolding e part_inv_def by blast
qed

section \<open>A failed allocation\<close>

lemma my_memcpy_null_dst:
  assumes "sz mod 8 = 0" "0 < sz" "block st rd = None" "block st rs = Some (concat S)"
    "uniform sz S" "j < length S"
  shows "my_memcpy st (rd, x) (rs, int j * int sz) sz = Inl NullPointer"
proof -
  have sz8: "8 \<le> sz" using assms(1,2) by presburger
  have n: "0 < sz div 8" using sz8 by simp
  have "j * sz + sz \<le> length (concat S)"
    using assms(5,6) by (simp add: length_concat_uniform elem_bounds)
  then have "j * sz + 8 \<le> length (concat S)" using sz8 by simp
  then have ld: "load st (rs, int (j * sz)) 8 = Inr (take 8 (drop (j * sz) (concat S)))"
    using assms(4) by (intro load_ok) auto
  have st: "store st (rd, x) v = Inl NullPointer" for v
    using assms(3) by (simp add: store_def)
  have "my_memcpy_loop st (rd, x) (rs, int j * int sz) (sz div 8) 0 = Inl NullPointer"
    apply (subst my_memcpy_loop.simps)
    using n ld st by (simp add: long_at_def padd_def)
  then show ?thesis using assms(1) by (simp add: my_memcpy_def and7 drop_bit_eq_div)
qed

lemma p_merge_null:
  assumes "sz mod 8 = 0" "0 < sz" "temp st = None" "base st = concat B" "uniform sz B" "m < length B" "l \<le> m"
  shows "p_merge st sz c l r m = Inl NullPointer"
proof -
  have "my_memcpy st (Temp, int (0 + l) * int sz) (Base, int (0 + l) * int sz) sz = Inl NullPointer"
  proof (rule my_memcpy_null_dst [OF assms(1,2), where S = B])
    show "block st Temp = None" using assms(3) by simp
    show "block st Base = Some (concat B)" using assms(4) by simp
    show "uniform sz B" by fact
    show "0 + l < length B" using assms(6,7) by simp
  qed
  then have "copy_to_temp st sz l (m - l + 1) 0 = Inl NullPointer"
    by (subst copy_to_temp.simps) simp
  then show ?thesis by (simp add: p_merge_def Let_def)
qed

lemma insertion_sort_null:
  assumes "sz mod 8 = 0" "0 < sz" "heap st < sz" "base st = concat (L @ X @ R)" "uniform sz (L @ X @ R)"
    "length L = l" "length X = nelem" "1 < nelem"
  shows "insertion_sort st (Base, int l * int sz) nelem sz c = Inl NullPointer"
proof -
  let ?st0 = "st\<lparr>scratch := malloc st sz\<rparr>"
  have m: "malloc st sz = None" using assms(3) by (simp add: malloc_def)
  have p: "eptr (Base, int l * int sz) (int 1) sz = (Base, int (l + 1) * int sz)" by (rule ptr_shift)
  have "my_memcpy ?st0 (Scratch, 0) (Base, int (l + 1) * int sz) sz = Inl NullPointer"
  proof (rule my_memcpy_null_dst [OF assms(1,2), where S = "L @ X @ R"])
    show "block ?st0 Scratch = None" using m by simp
    show "block ?st0 Base = Some (concat (L @ X @ R))" using assms(4) by simp
    show "uniform sz (L @ X @ R)" by fact
    show "l + 1 < length (L @ X @ R)" using assms(6,7,8) by simp
  qed
  then have "ins_outer ?st0 c (Base, int l * int sz) nelem sz 1 = Inl NullPointer"
    apply (subst ins_outer.simps)
    using assms(8) p by simp
  then show ?thesis by (simp add: insertion_sort_def)
qed

lemma p_merge_sort_null:
  assumes "sz mod 8 = 0" "0 < sz" "valid_compar c"
  shows "base st = concat (L @ X @ R) \<Longrightarrow> uniform sz (L @ X @ R) \<Longrightarrow> length L = l \<Longrightarrow>
     length X = r - l + 1 \<Longrightarrow> nelem = r - l + 1 \<Longrightarrow> temp st = None \<Longrightarrow>
     p_merge_sort st nelem sz c l r grain = Inl NullPointer \<or>
     (\<exists>out sc. p_merge_sort st nelem sz c l r grain =
          Inr (st\<lparr>base := concat (L @ out @ R), scratch := sc\<rparr>) \<and>
        length out = length X \<and> uniform sz out \<and> \<not> (l < r \<and> grain < nelem))"
proof (induction "r - l" arbitrary: l r nelem st L X R rule: less_induct)
  case less
  note prems = less.prems
  show ?case
  proof (cases "r > l")
    case False
    have "p_merge_sort st nelem sz c l r grain = Inr st"
      using False by (subst p_merge_sort.simps) simp
    moreover have "st = st\<lparr>base := concat (L @ X @ R), scratch := scratch st\<rparr>"
      using prems(1) by simp
    ultimately show ?thesis using False prems(2)
      by (intro disjI2 exI [of _ X] exI [of _ "scratch st"]) simp
  next
    case True
    define m where "m = (l + r) div 2"
    have m: "l \<le> m" "m < r" using True by (simp_all add: m_def)
    let ?A = "take (m - l + 1) X" and ?B = "drop (m - l + 1) X"
    have lA: "length ?A = m - l + 1" and lB: "length ?B = r - m"
      using prems(4) m by simp_all
    have eqX: "L @ ?A @ ?B @ R = L @ X @ R" by simp
    have lX: "length X = (m - l + 1) + (r - m)" using prems(4) m by simp
    have split: "bnd (p_merge_sort st (m - l + 1) sz c l m grain) (\<lambda>st1.
        bnd (p_merge_sort st1 (r - m) sz c (m + 1) r grain) (\<lambda>st2.
        p_merge st2 sz c l r m)) = Inl NullPointer"
    proof -
      have "p_merge_sort st (m - l + 1) sz c l m grain = Inl NullPointer \<or>
         (\<exists>out sc. p_merge_sort st (m - l + 1) sz c l m grain =
              Inr (st\<lparr>base := concat (L @ out @ (?B @ R)), scratch := sc\<rparr>) \<and>
            length out = length ?A \<and> uniform sz out \<and> \<not> (l < m \<and> grain < m - l + 1))"
      proof (rule less.hyps)
        show "m - l < r - l" using m by simp
        show "base st = concat (L @ ?A @ ?B @ R)" using prems(1) by (simp only: eqX)
        show "uniform sz (L @ ?A @ ?B @ R)" using prems(2) by (simp only: eqX)
        show "length L = l" by fact
        show "length ?A = m - l + 1" by (rule lA)
        show "m - l + 1 = m - l + 1" by simp
        show "temp st = None" by fact
      qed
      then show ?thesis
      proof
        assume "p_merge_sort st (m - l + 1) sz c l m grain = Inl NullPointer"
        then show ?thesis by simp
      next
        assume "\<exists>out sc. p_merge_sort st (m - l + 1) sz c l m grain =
              Inr (st\<lparr>base := concat (L @ out @ (?B @ R)), scratch := sc\<rparr>) \<and>
            length out = length ?A \<and> uniform sz out \<and> \<not> (l < m \<and> grain < m - l + 1)"
        then obtain A' sc1 where r1: "p_merge_sort st (m - l + 1) sz c l m grain =
              Inr (st\<lparr>base := concat (L @ A' @ (?B @ R)), scratch := sc1\<rparr>)"
            and lA': "length A' = length ?A" and uA': "uniform sz A'"
          by blast
        let ?st1 = "st\<lparr>base := concat (L @ A' @ (?B @ R)), scratch := sc1\<rparr>"
        have "p_merge_sort ?st1 (r - m) sz c (m + 1) r grain = Inl NullPointer \<or>
           (\<exists>out sc. p_merge_sort ?st1 (r - m) sz c (m + 1) r grain =
                Inr (?st1\<lparr>base := concat ((L @ A') @ out @ R), scratch := sc\<rparr>) \<and>
              length out = length ?B \<and> uniform sz out \<and> \<not> (m + 1 < r \<and> grain < r - m))"
        proof (rule less.hyps)
          show "r - (m + 1) < r - l" using m by simp
          show "base ?st1 = concat ((L @ A') @ ?B @ R)" by simp
          show "uniform sz ((L @ A') @ ?B @ R)" using prems(2) uA' by (simp add: uniform_drop)
          show "length (L @ A') = m + 1" using prems(3) lA' lA m by simp
          show "length ?B = r - (m + 1) + 1" using lB m by simp
          show "r - m = r - (m + 1) + 1" using m by simp
          show "temp ?st1 = None" using prems(6) by simp
        qed
        then show ?thesis
        proof
          assume "p_merge_sort ?st1 (r - m) sz c (m + 1) r grain = Inl NullPointer"
          then show ?thesis using r1 by simp
        next
          assume "\<exists>out sc. p_merge_sort ?st1 (r - m) sz c (m + 1) r grain =
                Inr (?st1\<lparr>base := concat ((L @ A') @ out @ R), scratch := sc\<rparr>) \<and>
              length out = length ?B \<and> uniform sz out \<and> \<not> (m + 1 < r \<and> grain < r - m)"
          then obtain B' sc2 where r2: "p_merge_sort ?st1 (r - m) sz c (m + 1) r grain =
                Inr (?st1\<lparr>base := concat ((L @ A') @ B' @ R), scratch := sc2\<rparr>)"
              and lB': "length B' = length ?B" and uB': "uniform sz B'"
            by blast
          let ?st2 = "?st1\<lparr>base := concat ((L @ A') @ B' @ R), scratch := sc2\<rparr>"
          have "p_merge ?st2 sz c l r m = Inl NullPointer"
          proof (rule p_merge_null [OF assms(1,2)])
            show "temp ?st2 = None" using prems(6) by simp
            show "base ?st2 = concat ((L @ A') @ B' @ R)" by simp
            show "uniform sz ((L @ A') @ B' @ R)" using prems(2) uA' uB' by simp
            show "m < length ((L @ A') @ B' @ R)" using prems(3) lA' lA lB' lB m by simp
            show "l \<le> m" by fact
          qed
          then show ?thesis using r1 r2 by simp
        qed
      qed
    qed
    show ?thesis
    proof (cases "nelem > grain")
      case g: True
      have "p_merge_sort st nelem sz c l r grain =
        bnd (p_merge_sort st (m - l + 1) sz c l m grain) (\<lambda>st1.
        bnd (p_merge_sort st1 (r - m) sz c (m + 1) r grain) (\<lambda>st2.
        p_merge st2 sz c l r m))"
        using True g by (subst p_merge_sort.simps) (simp add: Let_def m_def)
      then show ?thesis using split by simp
    next
      case g: False
      have n1: "nelem > 1" using prems(5) True by simp
      show ?thesis
      proof (cases "nelem \<le> 32")
        case s: True
        have ps: "p_merge_sort st nelem sz c l r grain =
            insertion_sort st (Base, int l * int sz) nelem sz c"
          using True g n1 s by (subst p_merge_sort.simps) simp
        show ?thesis
        proof (cases "sz \<le> heap st")
          case h: True
          obtain out where o: "insertion_sort st (Base, int l * int sz) nelem sz c =
             Inr (st\<lparr>base := concat (L @ out @ R), scratch := None\<rparr>)"
             "sorted_by c out" "stable_of c X out"
            using insertion_sort_ok [OF assms(1,3) prems(3,1,2) _ h, of nelem] prems(4,5)
            by auto
          have "length out = length X" using assms(3) o(3) by (rule stable_of_length)
          moreover have "uniform sz out" using stable_of_uniform [OF assms(3) o(3)] prems(2) by simp
          ultimately show ?thesis using ps o(1) g
            by (intro disjI2 exI [of _ out] exI [of _ None]) simp
        next
          case h: False
          have "insertion_sort st (Base, int l * int sz) nelem sz c = Inl NullPointer"
            using assms(1,2) _ prems(1,2,3) _ n1
          proof (rule insertion_sort_null)
            show "heap st < sz" using h by simp
            show "length X = nelem" using prems(4,5) by simp
          qed
          then show ?thesis using ps by simp
        qed
      next
        case s: False
        have "p_merge_sort st nelem sz c l r grain =
          bnd (p_merge_sort st (m - l + 1) sz c l m grain) (\<lambda>st1.
          bnd (p_merge_sort st1 (r - m) sz c (m + 1) r grain) (\<lambda>st2.
          p_merge st2 sz c l r m))"
          using True g n1 s by (subst p_merge_sort.simps) (simp add: Let_def m_def)
        then show ?thesis using split by simp
      qed
    qed
  qed
qed

lemma merge_run_null:
  assumes "sz mod 8 = 0" "0 < sz" "valid_compar c" "base st = concat X" "uniform sz X"
    "length X = num" "heap st < sz * num" "1 < num"
  shows "bnd (p_merge_sort (st\<lparr>temp := malloc st (sz * num)\<rparr>) num sz c 0 (num - 1)
            (merge_grain num)) (\<lambda>st'. Inr (st'\<lparr>temp := None\<rparr>)) = Inl NullPointer"
proof -
  let ?st0 = "st\<lparr>temp := malloc st (sz * num)\<rparr>"
  have m: "malloc st (sz * num) = None" using assms(7) by (simp add: malloc_def)
  have "p_merge_sort ?st0 num sz c 0 (num - 1) (merge_grain num) = Inl NullPointer \<or>
     (\<exists>out sc. p_merge_sort ?st0 num sz c 0 (num - 1) (merge_grain num) =
          Inr (?st0\<lparr>base := concat ([] @ out @ []), scratch := sc\<rparr>) \<and>
        length out = length X \<and> uniform sz out \<and> \<not> (0 < num - 1 \<and> merge_grain num < num))"
  proof (rule p_merge_sort_null [OF assms(1,2,3)])
    show "base ?st0 = concat ([] @ X @ [])" using assms(4) by simp
    show "uniform sz ([] @ X @ [])" using assms(5) by simp
    show "length ([]::byte list list) = 0" by simp
    show "length X = num - 1 - 0 + 1" using assms(6,8) by simp
    show "num = num - 1 - 0 + 1" using assms(8) by simp
    show "temp ?st0 = None" using m by simp
  qed
  moreover have "0 < num - 1 \<and> merge_grain num < num"
    using assms(8) merge_grain_less [of num] by simp
  ultimately have "p_merge_sort ?st0 num sz c 0 (num - 1) (merge_grain num) = Inl NullPointer"
    by blast
  then show ?thesis by simp
qed

section \<open>The library sort and the default entry point\<close>

lemma qsort_ok:
  assumes "sorts lib" "valid_compar c" "0 < sz" "base st = concat (L @ X @ R)"
    "uniform sz (L @ X @ R)" "length L = l" "length X = num"
  shows "qsort lib st (Base, int l * int sz) num sz c = Inr (st\<lparr>base := concat (L @ lib c X @ R)\<rparr>)"
proof (cases "num = 0")
  case True
  then have X: "X = []" using assms(7) by simp
  have "mset (lib c []) = mset []" using assms(1,2) unfolding sorts_def by blast
  then have "lib c [] = []" by simp
  then show ?thesis using True X assms(4) by (simp add: qsort_def)
next
  case False
  let ?out = "lib c X"
  have ms: "mset ?out = mset X" using assms(1,2) unfolding sorts_def by blast
  have uX: "uniform sz X" and uL: "uniform sz L" using assms(5) by simp_all
  have uo: "uniform sz ?out" using uniform_mset [OF ms] uX by simp
  have lo: "length ?out = num" using ms assms(7) by (metis size_mset)
  have lL: "length (concat L) = l * sz" using uL assms(6) by (simp add: length_concat_uniform)
  have lX: "length (concat X) = num * sz" using uX assms(7) by (simp add: length_concat_uniform)
  have lO: "length (concat ?out) = num * sz" using uo lo by (simp add: length_concat_uniform)
  have b: "block st Base = Some (concat L @ concat X @ concat R)" using assms(4) by simp
  have ld: "load st (Base, int (l * sz)) (num * sz) = Inr (concat X)"
    using load_ok [OF b, of "l * sz" "num * sz"] lL lX by simp
  have "store st (Base, int (l * sz)) (concat ?out) =
      Inr (set_block st Base (upd_bytes (concat L @ concat X @ concat R) (l * sz) (concat ?out)))"
    using b lL lX lO by (intro store_ok) auto
  moreover have "upd_bytes (concat L @ concat X @ concat R) (l * sz) (concat ?out) =
      concat L @ concat ?out @ concat R"
    using lL lX lO by (simp add: upd_bytes_def)
  ultimately have st: "store st (Base, int (l * sz)) (concat ?out) =
      Inr (st\<lparr>base := concat (L @ ?out @ R)\<rparr>)"
    by simp
  have ch: "chunks sz num (concat X) = X" using chunks_concat [OF uX] assms(7) by simp
  show ?thesis using False assms(3) ld st ch by (simp add: qsort_def)
qed

lemma emu_sort_local_ok:
  assumes "sorts lib" "sz mod 8 = 0" "0 < sz" "valid_compar c" "base st = concat X" "uniform sz X"
    "length X = num" "sz * num \<le> heap st"
  shows "\<exists>st' out. emu_sort_local lib st num sz c = Inr st' \<and> base st' = concat out \<and>
           sorted_by c out \<and> mset out = mset X \<and> (32 \<le> num \<longrightarrow> stable_of c X out)"
proof (cases "32 \<le> num")
  case True
  then obtain out sc where
    "bnd (p_merge_sort (st\<lparr>temp := malloc st (sz * num)\<rparr>) num sz c 0 (num - 1)
                  (merge_grain num)) (\<lambda>st'. Inr (st'\<lparr>temp := None\<rparr>)) =
           Inr (st\<lparr>base := concat out, temp := None, scratch := sc\<rparr>)"
    "sorted_by c out" "stable_of c X out"
    using merge_run_ok [OF assms(2,4,5,6,7,8)] by auto
  moreover have "mset out = mset X" using assms(4) calculation(3) by (rule stable_of_mset)
  ultimately show ?thesis using True
    by (intro exI [of _ "st\<lparr>base := concat out, temp := None, scratch := sc\<rparr>"] exI [of _ out])
       (simp add: emu_sort_local_def)
next
  case False
  have "qsort lib st (Base, int 0 * int sz) num sz c = Inr (st\<lparr>base := concat ([] @ lib c X @ [])\<rparr>)"
    using assms(1,4,3) by (rule qsort_ok) (use assms in simp_all)
  moreover have "sorted_by c (lib c X)" "mset (lib c X) = mset X"
    using assms(1,4) unfolding sorts_def by blast+
  ultimately show ?thesis using False
    by (intro exI [of _ "st\<lparr>base := concat (lib c X)\<rparr>"] exI [of _ "lib c X"])
       (simp add: emu_sort_local_def)
qed

lemma mset_lib_insert: "mset (lib_insert c x xs) = add_mset x (mset xs)"
  by (induction xs) auto

lemma set_lib_insert: "set (lib_insert c x xs) = insert x (set xs)"
  by (induction xs) auto

lemma sorted_lib_insert:
  "valid_compar c \<Longrightarrow> sorted_by c xs \<Longrightarrow> sorted_by c (lib_insert c x xs)"
proof (induction xs)
  case Nil
  then show ?case by (simp add: sorted_by_def)
next
  case (Cons y ys)
  show ?case
  proof (cases "c x y < 0")
    case True
    then have xy: "c x y \<le> 0" by simp
    have "\<forall>z\<in>set ys. c x z \<le> 0"
      using Cons.prems xy by (auto simp: sorted_by_def intro: vc_trans)
    then show ?thesis using True xy Cons.prems by (simp add: sorted_by_def)
  next
    case False
    then have "c y x \<le> 0" using Cons.prems(1) vc_flip_le [of c y x] by simp
    then show ?thesis using False Cons
      by (auto simp: sorted_by_def set_lib_insert)
  qed
qed

lemma sorts_lib_sort: "sorts lib_sort"
  unfolding sorts_def
proof (intro allI impI conjI)
  fix c xs assume vc: "valid_compar c"
  show "sorted_by c (lib_sort c xs)"
    unfolding lib_sort_def
    by (induction xs) (simp_all add: sorted_by_def [of c "[]"] sorted_lib_insert [OF vc])
  show "mset (lib_sort c xs) = mset xs"
    unfolding lib_sort_def by (induction xs) (simp_all add: mset_lib_insert)
qed

section \<open>The partition step of the quick sort\<close>

lemma mid_ptr:
  assumes "left \<le> right" "right * 8 < 2 ^ 63"
  shows "padd (eptr (Base, 0) (int left) 8)
           ((int 8 * ((snd (eptr (Base, 0) (int right) 8) - snd (eptr (Base, 0) (int left) 8)) mod 2 ^ 64
               div int 8 div 2)) mod 2 ^ 64) =
         (Base, int (left + (right - left) div 2) * 8)"
proof -
  define d where "d = right - left"
  have r: "right = left + d" using assms(1) by (simp add: d_def)
  have d: "int d * 8 < 2 ^ 63" using assms(2) r by simp
  have "(int right * 8 - int left * 8) mod 2 ^ 64 = int d * 8"
    using d by (simp add: r)
  moreover have "(int d * 8) div 8 div 2 = int (d div 2)" by simp
  moreover have "(8 * int (d div 2)) mod 2 ^ 64 = 8 * int (d div 2)"
  proof -
    have "8 * int (d div 2) \<le> int d * 8" by simp
    then have "8 * int (d div 2) < 2 ^ 64" using d by simp
    then show ?thesis by simp
  qed
  ultimately show ?thesis
    by (simp add: padd_def d_def [symmetric] algebra_simps)
qed

lemma qs_partition_ok:
  assumes vc: "valid_compar c" and b: "base st = concat B" and u: "uniform 8 B"
    and l: "left \<le> right" "right < length B" and sm: "length B * 8 < 2 ^ 63"
  shows "\<exists>B' i' jn' p Bm. qs_partition st 8 c (int left) (int right) =
            Inr (st\<lparr>base := concat B', scratch := None\<rparr>, int i', int jn' - 1) \<and>
          mset B' = mset B \<and> length B' = length B \<and> uniform 8 B' \<and>
          (\<forall>k. k < left \<or> right < k \<longrightarrow> B' ! k = B ! k) \<and>
          part_inv c p left right B' i' jn' \<and> jn' \<le> i' \<and> left < i' \<and> jn' \<le> right \<and>
          uniform 8 Bm \<and> med_post c B Bm left (left + (right - left) div 2) right \<and>
          p = Bm ! (left + (right - left) div 2)"
proof -
  define m where "m = left + (right - left) div 2"
  have ml: "left \<le> m" "m \<le> right" using l(1) by (simp_all add: m_def)
  let ?st0 = "st\<lparr>scratch := Some (replicate 8 0)\<rparr>"
  have r8: "right * 8 < 2 ^ 63" using l(2) sm by simp
  have mid: "padd (eptr (Base, 0) (int left) 8)
           ((int 8 * ((snd (eptr (Base, 0) (int right) 8) - snd (eptr (Base, 0) (int left) 8)) mod 2 ^ 64
               div int 8 div 2)) mod 2 ^ 64) = (Base, int m * 8)"
    unfolding m_def using l(1) r8 by (rule mid_ptr)
  obtain Bm where med: "median3 ?st0 c 8 (Base, int left * 8) (Base, int m * 8) (Base, int right * 8) =
            Inr (?st0\<lparr>base := concat Bm\<rparr>)" "uniform 8 Bm" "med_post c B Bm left m right"
    using median3_ok [OF vc _ u ml l(2), of ?st0] b by auto
  let ?st1 = "?st0\<lparr>base := concat Bm\<rparr>"
  have lm: "length Bm = length B" "mset Bm = mset B" using med(3) by (simp_all add: med_post_def)
  have mB: "m < length Bm" using ml l(2) lm by simp
  define p where "p = Bm ! m"
  have lp: "length p = 8" using med(2) mB by (simp add: p_def uniform_nth)
  have "my_memcpy ?st1 (Scratch, int 0 * int 8) (Base, int m * int 8) 8 =
      Inr (set_block ?st1 Scratch (concat ([replicate 8 0][0 := Bm ! m])))"
    using med(2) mB by (intro copy_elem) auto
  then have cp: "my_memcpy ?st1 (Scratch, 0) (Base, int m * 8) 8 = Inr (?st1\<lparr>scratch := Some p\<rparr>)"
    by (simp add: p_def)
  let ?st2 = "st\<lparr>base := concat Bm, scratch := Some p\<rparr>"
  have pm: "c (Bm ! m) p = 0" using vc_refl [OF vc] by (simp add: p_def)
  have "\<exists>B' i' jn'. partition_loop ?st2 c 8 (int left) (int (Suc right) - 1) =
          Inr (?st2\<lparr>base := concat B'\<rparr>, int i', int jn' - 1) \<and>
        mset B' = mset Bm \<and> length B' = length Bm \<and> uniform 8 B' \<and>
        (\<forall>k. k < left \<or> right < k \<longrightarrow> B' ! k = Bm ! k) \<and>
        part_inv c p left right B' i' jn' \<and> jn' \<le> i' \<and> left \<le> i' \<and> jn' \<le> Suc right \<and>
        ((\<exists>m. left \<le> m \<and> m < Suc right \<and> c (Bm ! m) p = 0) \<longrightarrow> left < i' \<and> jn' < Suc right)"
  proof (rule partition_loop_ok [where ?B0.0 = Bm])
    show "uniform 8 Bm" by (rule med(2))
    show "length p = 8" by (rule lp)
    show "right < length Bm" using l(2) lm by simp
    show "length Bm < 2 ^ 63" using sm lm by simp
    show "base ?st2 = concat Bm" by simp
    show "uniform 8 Bm" by (rule med(2))
    show "length Bm = length Bm" by simp
    show "scratch ?st2 = Some p" by simp
    show "part_inv c p left right Bm left (Suc right)" using l(1) by (simp add: part_inv_def)
    show "left < Suc right \<longrightarrow> (\<exists>s. left \<le> s \<and> s \<le> right \<and> 0 \<le> c (Bm ! s) p) \<and>
                 (\<exists>s. left \<le> s \<and> s < Suc right \<and> c (Bm ! s) p \<le> 0)"
      using ml pm by (metis le_imp_less_Suc order_refl)
  qed
  then obtain B' i' jn' where r: "partition_loop ?st2 c 8 (int left) (int (Suc right) - 1) =
          Inr (?st2\<lparr>base := concat B'\<rparr>, int i', int jn' - 1)"
        "mset B' = mset Bm" "length B' = length Bm" "uniform 8 B'"
        "\<forall>k. k < left \<or> right < k \<longrightarrow> B' ! k = Bm ! k"
        "part_inv c p left right B' i' jn'" "jn' \<le> i'"
        "(\<exists>m. left \<le> m \<and> m < Suc right \<and> c (Bm ! m) p = 0) \<longrightarrow> left < i' \<and> jn' < Suc right"
    by blast
  have "\<exists>m. left \<le> m \<and> m < Suc right \<and> c (Bm ! m) p = 0" using ml pm by (metis le_imp_less_Suc)
  then have strict: "left < i'" "jn' \<le> right" using r(8) by simp_all
  have out: "\<forall>k. k < left \<or> right < k \<longrightarrow> B' ! k = B ! k"
  proof (intro allI impI)
    fix k assume k: "k < left \<or> right < k"
    then have "k \<noteq> left \<and> k \<noteq> m \<and> k \<noteq> right" using ml l(1) by auto
    then have "Bm ! k = B ! k" using med(3) by (simp add: med_post_def)
    moreover have "B' ! k = Bm ! k" using r(5) k by blast
    ultimately show "B' ! k = B ! k" by simp
  qed
  have pl: "partition_loop ?st2 c 8 (int left) (int right) =
          Inr (?st2\<lparr>base := concat B'\<rparr>, int i', int jn' - 1)"
    using r(1) by simp
  have run: "qs_partition st 8 c (int left) (int right) =
            Inr (st\<lparr>base := concat B', scratch := None\<rparr>, int i', int jn' - 1)"
    unfolding qs_partition_def Let_def mid
    using med(1) cp pl by simp
  have rest: "mset B' = mset B \<and> length B' = length B \<and> uniform 8 B' \<and>
          part_inv c p left right B' i' jn' \<and> jn' \<le> i' \<and> left < i' \<and> jn' \<le> right"
    using r(2,3,4,6,7) lm strict by simp
  show ?thesis
    apply (rule exI [of _ B'], rule exI [of _ i'], rule exI [of _ jn'], rule exI [of _ p], rule exI [of _ Bm])
    using run rest out med(2,3) p_def m_def by blast
qed

section \<open>Sorting twice\<close>

lemma emu_sort_local_merge_twice:
  assumes "sz mod 8 = 0" "valid_compar c" "base st = concat X" "uniform sz X" "length X = num"
    "sz * num \<le> heap st"
  shows "\<exists>st1 st2 out. emu_sort_local_merge st num sz c = Inr st1 \<and> base st1 = concat out \<and>
           sorted_by c out \<and> stable_of c X out \<and>
           emu_sort_local_merge st1 num sz c = Inr st2 \<and> base st2 = base st1"
proof (cases "num > 1")
  case True
  then have pos: "0 < num" by simp
  obtain out sc where r1:
    "bnd (p_merge_sort (st\<lparr>temp := malloc st (sz * num)\<rparr>) num sz c 0 (num - 1)
                  (merge_grain num)) (\<lambda>st'. Inr (st'\<lparr>temp := None\<rparr>)) =
           Inr (st\<lparr>base := concat out, temp := None, scratch := sc\<rparr>)"
    "sorted_by c out" "stable_of c X out"
    using merge_run_ok [OF assms pos] by blast
  let ?st1 = "st\<lparr>base := concat out, temp := None, scratch := sc\<rparr>"
  have ms: "mset out = mset X" using assms(2) r1(3) by (rule stable_of_mset)
  have u1: "uniform sz out" using uniform_mset [OF ms] assms(4) by simp
  have l1: "length out = num" using ms assms(5) by (metis size_mset)
  have b1: "base ?st1 = concat out" by simp
  have h1: "sz * num \<le> heap ?st1" using assms(6) by simp
  obtain out2 sc2 where r2:
    "bnd (p_merge_sort (?st1\<lparr>temp := malloc ?st1 (sz * num)\<rparr>) num sz c 0 (num - 1)
                  (merge_grain num)) (\<lambda>st'. Inr (st'\<lparr>temp := None\<rparr>)) =
           Inr (?st1\<lparr>base := concat out2, temp := None, scratch := sc2\<rparr>)"
    "sorted_by c out2" "stable_of c out out2"
    using merge_run_ok [OF assms(1,2) b1 u1 l1 h1 pos] by blast
  have eq: "out2 = out" using assms(2) r1(2) r2(2,3) by (rule stable_sorted_unique)
  have e1: "emu_sort_local_merge st num sz c = Inr ?st1"
    using True r1(1) by (simp add: emu_sort_local_merge_def)
  have e2: "emu_sort_local_merge ?st1 num sz c =
      Inr (?st1\<lparr>base := concat out2, temp := None, scratch := sc2\<rparr>)"
    using True r2(1) by (simp add: emu_sort_local_merge_def)
  show ?thesis
    using e1 e2 r1(2,3) eq
    by (intro exI [of _ ?st1] exI [of _ "?st1\<lparr>base := concat out2, temp := None, scratch := sc2\<rparr>"]
          exI [of _ out]) simp
next
  case False
  then have "sorted_by c X" using assms(5) by (intro sorted_by_short) simp
  moreover have "stable_of c X X" by (simp add: stable_of_def)
  ultimately show ?thesis using False assms(3)
    by (intro exI [of _ st] exI [of _ st] exI [of _ X]) (simp add: emu_sort_local_merge_def)
qed

section \<open>The test comparator\<close>

lemma valid_cmp_first: "valid_compar cmp_first"
  by (auto simp: valid_compar_def cmp_first_def)

section \<open>Claims\<close>

text \<open>
  C8. For every element count \<open>num \<ge> 2\<close>, \<^verbatim>\<open>highestPowerofTwoLessThan(num)\<close> is the
  largest power of two strictly less than \<open>num\<close>: the result \<open>m\<close> is a power of two, \<open>m < num\<close>,
  and every power of two below \<open>num\<close> is at most \<open>m\<close>. When \<open>num > grain\<close>,
  \<^verbatim>\<open>p_bitonic_merge\<close> runs the compare-and-swap pass \<^verbatim>\<open>merge_worker\<close> with this \<open>m\<close> as
  the distance over the indices \<open>low \<le> i < low + (num - m)\<close> and then merges the ranges
  \<open>[low, low + m)\<close> and \<open>[low + m, low + num)\<close>; on 8-byte elements the pass is
  \<open>cas_pass\<close>, which exchanges the elements \<open>i\<close> and \<open>i + m\<close> that are out of order. An
  element count is at most \<open>2 ^ 63\<close>: the helper is static, its one caller passes the
  number of elements of a range of the array, and an array has fewer than \<open>2 ^ 63\<close> bytes
  (beyond \<open>2 ^ 63\<close> the shift wraps, lemma \<open>hp2_wrap\<close>).
\<close>

theorem highest_power_of_two_split:
  assumes "2 \<le> num" "num \<le> 2 ^ 63" "grain < num"
  shows "let m = unat (highestPowerofTwoLessThan (of_nat num)) in
           (\<exists>k. m = 2 ^ k) \<and> m < num \<and> (\<forall>j. 2 ^ j < num \<longrightarrow> 2 ^ j \<le> m) \<and>
           p_bitonic_merge lib st low num compar asec sz grain =
             obnd (Some (merge_worker st compar asec m sz (int low) (int (low + (num - m))))) (\<lambda>st1.
             obnd (p_bitonic_merge lib st1 low m compar asec sz grain) (\<lambda>st2.
             p_bitonic_merge lib st2 (low + m) (num - m) compar asec sz grain)) \<and>
           (sz = 8 \<and> base st = concat B \<and> uniform 8 B \<and> low + num \<le> length B \<longrightarrow>
              merge_worker st compar asec m sz (int low) (int (low + (num - m))) =
                Inr (st\<lparr>base := concat (cas_pass compar asec m B low (low + (num - m)))\<rparr>))"
proof -
  obtain k where k: "k < 63" "unat (highestPowerofTwoLessThan (of_nat num)) = 2 ^ k"
     "2 ^ k < num" "num \<le> 2 ^ (k + 1)"
    using hp2_nat [OF assms(1,2)] by blast
  have largest: "(2::nat) ^ j \<le> 2 ^ k" if "2 ^ j < num" for j
  proof -
    have "(2::nat) ^ j < 2 ^ (k + 1)" using that k(4) by simp
    then have "j < k + 1" by (simp only: power_strict_increasing_iff one_less_numeral_iff semiring_norm)
    then show ?thesis by (intro power_increasing) simp_all
  qed
  have eq: "p_bitonic_merge lib st low num compar asec sz grain =
             obnd (Some (merge_worker st compar asec (2 ^ k) sz (int low) (int (low + (num - 2 ^ k))))) (\<lambda>st1.
             obnd (p_bitonic_merge lib st1 low (2 ^ k) compar asec sz grain) (\<lambda>st2.
             p_bitonic_merge lib st2 (low + 2 ^ k) (num - 2 ^ k) compar asec sz grain))"
    apply (subst p_bitonic_merge.simps)
    using k assms(3) by (simp add: emu_local_for_def Let_def algebra_simps)
  have ex: "\<exists>k'. (2::nat) ^ k = 2 ^ k'" by blast
  have pass: "merge_worker st compar asec (2 ^ k) sz (int low) (int (low + (num - 2 ^ k))) =
                Inr (st\<lparr>base := concat (cas_pass compar asec (2 ^ k) B low (low + (num - 2 ^ k)))\<rparr>)"
    if h: "sz = 8 \<and> base st = concat B \<and> uniform 8 B \<and> low + num \<le> length B"
  proof -
    have b: "base st = concat B" and u: "uniform 8 B" using h by simp_all
    have le: "low + (num - 2 ^ k) + 2 ^ k \<le> length B" using h k(3) by simp
    have pos: "0 < (2::nat) ^ k" by simp
    show ?thesis using merge_worker_ok [OF b u le pos] h by simp
  qed
  show ?thesis
    unfolding Let_def k(2) using ex k(3) largest eq pass by blast
qed

theorem highest_power_of_two_split_witness:
  "unat (highestPowerofTwoLessThan (of_nat 5)) = 4 \<and>
   merge_worker (mem_of (concat [el 2 0, el 5 0, el 9 0, el 4 0, el 1 0])) cmp_first True 4 8 (int 0) (int 1) =
     Inr (mem_of (concat [el 1 0, el 5 0, el 9 0, el 4 0, el 2 0])) \<and>
   p_bitonic_merge lib_sort (mem_of (concat [el 1 0, el 5 0, el 9 0, el 4 0, el 2 0])) 0 4 cmp_first True 8 1 =
     Some (Inr (mem_of (concat [el 1 0, el 4 0, el 5 0, el 9 0, el 2 0]))) \<and>
   p_bitonic_merge lib_sort (mem_of (concat [el 1 0, el 4 0, el 5 0, el 9 0, el 2 0])) 4 1 cmp_first True 8 1 =
     Some (Inr (mem_of (concat [el 1 0, el 4 0, el 5 0, el 9 0, el 2 0]))) \<and>
   p_bitonic_merge lib_sort (mem_of (concat [el 2 0, el 5 0, el 9 0, el 4 0, el 1 0])) 0 5 cmp_first True 8 1 =
     Some (Inr (mem_of (concat [el 1 0, el 4 0, el 5 0, el 9 0, el 2 0])))"
proof -
  let ?X = "[el 2 0, el 5 0, el 9 0, el 4 0, el 1 0]"
  let ?st = "mem_of (concat ?X)"
  let ?st1 = "mem_of (concat [el 1 0, el 5 0, el 9 0, el 4 0, el 2 0])"
  let ?st2 = "mem_of (concat [el 1 0, el 4 0, el 5 0, el 9 0, el 2 0])"
  define m where "m = unat (highestPowerofTwoLessThan (of_nat 5))"
  have a: "(2::nat) \<le> 5" "(5::nat) \<le> 2 ^ 63" "(1::nat) < 5" by simp_all
  note t = highest_power_of_two_split [of 5 1 lib_sort ?st 0 cmp_first True 8 ?X,
      OF a, unfolded Let_def, folded m_def]
  note t_lt = t [THEN conjunct2, THEN conjunct1]
  note t_all = t [THEN conjunct2, THEN conjunct2, THEN conjunct1]
  note t_eq = t [THEN conjunct2, THEN conjunct2, THEN conjunct2, THEN conjunct1]
  have "(2::nat) ^ 2 < 5" by simp
  then have "(2::nat) ^ 2 \<le> m" using t_all by blast
  then have m4: "m = 4" using t_lt by simp
  have w: "merge_worker ?st cmp_first True 4 8 (int 0) (int 1) = Inr ?st1" by code_simp
  have l: "p_bitonic_merge lib_sort ?st1 0 4 cmp_first True 8 1 = Some (Inr ?st2)" by code_simp
  have r: "p_bitonic_merge lib_sort ?st2 4 1 cmp_first True 8 1 = Some (Inr ?st2)" by code_simp
  have "p_bitonic_merge lib_sort ?st 0 5 cmp_first True 8 1 = Some (Inr ?st2)"
    using t_eq w l r unfolding m4 by (simp add: obnd_def)
  then show ?thesis using m4 w l r unfolding m_def by simp
qed

text \<open>
  C10. \<^verbatim>\<open>swap(a, b, size)\<close> leaves memory unchanged when \<open>size\<close> is not a multiple of 8.
  When it is, the call exchanges, for \<open>k = 0, 1, \<dots>\<close>, the long at byte offset \<open>64 * k\<close> from
  \<open>a\<close> with the long at byte offset \<open>64 * k\<close> from \<open>b\<close> (\<open>long_swaps\<close>): for \<open>size = 8\<close> this
  is the exact exchange of the 8 bytes at \<open>a\<close> and \<open>b\<close>, in either order of the pointers; for
  a larger size the call fails unless the longs at index \<open>size - 8\<close>, which begin at byte
  offset \<open>8 * (size - 8) \<ge> size\<close>, lie inside the block, and when it returns the bytes
  there have changed places while the second long of the lower element is where it was.
  The reversal loop and \<^verbatim>\<open>merge_worker\<close> of the bitonic sort and the pivot selection and
  partition loop of the quick sort change memory through calls of \<^verbatim>\<open>swap\<close> only
  (\<open>swaps_along\<close>): for a size that is not a multiple of 8 they return the memory as it
  was, and on 8-byte elements they reverse the range, run the compare-and-swap pass, put
  the three candidates in order and partition the range.
\<close>

theorem swap_exchanges_longs_only:
  "(sz mod 8 \<noteq> 0 \<longrightarrow> swap st a b sz = Inr st) \<and>
   (sz mod 8 = 0 \<and> (oa + 8 \<le> ob \<or> ob + 8 \<le> oa) \<and>
      (0 < sz \<longrightarrow> oa + 8 * (sz - 8) + 8 \<le> length (base st) \<and>
                 ob + 8 * (sz - 8) + 8 \<le> length (base st)) \<longrightarrow>
      swap st (Base, int oa) (Base, int ob) sz = Inr (st\<lparr>base := long_swaps (base st) oa ob sz\<rparr>) \<and>
      (sz = 8 \<longrightarrow> long_swaps (base st) oa ob sz = xch8 (base st) oa ob) \<and>
      (longs_apart oa ob sz \<longrightarrow>
         (\<forall>x<length (base st). long_swaps (base st) oa ob sz ! x =
            (if in_longs oa sz x then base st ! (x - oa + ob)
             else if in_longs ob sz x then base st ! (x - ob + oa) else base st ! x)))) \<and>
   (sz mod 8 = 0 \<and> 8 < sz \<longrightarrow>
      sz \<le> 8 * (sz - 8) \<and>
      (\<not> (long_in_bounds st a (sz - 8) \<and> long_in_bounds st b (sz - 8)) \<longrightarrow>
         (\<exists>e. swap st a b sz = Inl e)) \<and>
      (longs_apart oa ob sz \<and> oa + 8 * (sz - 8) + 8 \<le> length (base st) \<and>
       ob + 8 * (sz - 8) + 8 \<le> length (base st) \<and> t < 8 \<longrightarrow>
         long_swaps (base st) oa ob sz ! (oa + 8 * (sz - 8) + t) = base st ! (ob + 8 * (sz - 8) + t) \<and>
         long_swaps (base st) oa ob sz ! (ob + 8 * (sz - 8) + t) = base st ! (oa + 8 * (sz - 8) + t) \<and>
         (oa + sz \<le> ob \<longrightarrow>
            long_swaps (base st) oa ob sz ! (oa + 8 + t) = base st ! (oa + 8 + t)))) \<and>
   ((reverse_loop st low sz i j = Inr st' \<longrightarrow> (\<exists>ps. swaps_along sz ps st = Inr st')) \<and>
    (merge_worker st compar asec m sz bg en = Inr st' \<longrightarrow> (\<exists>ps. swaps_along sz ps st = Inr st')) \<and>
    (median3 st compar sz lo mid hi = Inr st' \<longrightarrow> (\<exists>ps. swaps_along sz ps st = Inr st')) \<and>
    (partition_loop st compar sz l r = Inr (st', i', j') \<longrightarrow>
       (\<exists>ps. swaps_along sz ps st = Inr st'))) \<and>
   (sz mod 8 \<noteq> 0 \<longrightarrow>
      reverse_loop st low sz i j = Inr st \<and>
      (merge_worker st compar asec m sz bg en = Inr st' \<longrightarrow> st' = st) \<and>
      (median3 st compar sz lo mid hi = Inr st' \<longrightarrow> st' = st) \<and>
      (partition_loop st compar sz l r = Inr (st', i', j') \<longrightarrow> st' = st)) \<and>
   (base st = concat B \<and> uniform 8 B \<longrightarrow>
      (i \<le> j + 1 \<and> low + j < length B \<longrightarrow>
         reverse_loop st low 8 i j =
           Inr (st\<lparr>base := concat (rev_range B (low + i) (low + j))\<rparr>)) \<and>
      (n2 + m \<le> length B \<and> 0 < m \<longrightarrow>
         merge_worker st compar asec m 8 (int n1) (int n2) =
           Inr (st\<lparr>base := concat (cas_pass compar asec m B n1 n2)\<rparr>)) \<and>
      (valid_compar compar \<and> k1 \<le> k2 \<and> k2 \<le> k3 \<and> k3 < length B \<longrightarrow>
         (\<exists>Bm. median3 st compar 8 (Base, int k1 * 8) (Base, int k2 * 8) (Base, int k3 * 8) =
                 Inr (st\<lparr>base := concat Bm\<rparr>) \<and>
               med_post compar B Bm k1 k2 k3)) \<and>
      (valid_compar compar \<and> scratch st = Some (B ! s) \<and> k1 \<le> s \<and> s \<le> k3 \<and>
       k3 < length B \<and> length B < 2 ^ 63 \<longrightarrow>
         (\<exists>B' ci cj. partition_loop st compar 8 (int k1) (int k3) =
                 Inr (st\<lparr>base := concat B'\<rparr>, int ci, int cj - 1) \<and>
               mset B' = mset B \<and> cj \<le> ci \<and>
               (\<forall>k. k < k1 \<or> k3 < k \<longrightarrow> B' ! k = B ! k) \<and>
               (\<forall>k. k1 \<le> k \<and> k < ci \<longrightarrow> compar (B' ! k) (B ! s) \<le> 0) \<and>
               (\<forall>k. cj \<le> k \<and> k \<le> k3 \<longrightarrow> 0 \<le> compar (B' ! k) (B ! s)))))"
proof -
  have p1: "sz mod 8 \<noteq> 0 \<longrightarrow> swap st a b sz = Inr st"
    by (simp add: swap_unaligned)
  have p2: "sz mod 8 = 0 \<and> (oa + 8 \<le> ob \<or> ob + 8 \<le> oa) \<and>
      (0 < sz \<longrightarrow> oa + 8 * (sz - 8) + 8 \<le> length (base st) \<and>
                 ob + 8 * (sz - 8) + 8 \<le> length (base st)) \<longrightarrow>
      swap st (Base, int oa) (Base, int ob) sz = Inr (st\<lparr>base := long_swaps (base st) oa ob sz\<rparr>) \<and>
      (sz = 8 \<longrightarrow> long_swaps (base st) oa ob sz = xch8 (base st) oa ob) \<and>
      (longs_apart oa ob sz \<longrightarrow>
         (\<forall>x<length (base st). long_swaps (base st) oa ob sz ! x =
            (if in_longs oa sz x then base st ! (x - oa + ob)
             else if in_longs ob sz x then base st ! (x - ob + oa) else base st ! x)))"
  proof (intro impI conjI allI)
    assume h: "sz mod 8 = 0 \<and> (oa + 8 \<le> ob \<or> ob + 8 \<le> oa) \<and>
      (0 < sz \<longrightarrow> oa + 8 * (sz - 8) + 8 \<le> length (base st) \<and>
                 ob + 8 * (sz - 8) + 8 \<le> length (base st))"
    then have h1: "sz mod 8 = 0" and h2: "oa + 8 \<le> ob \<or> ob + 8 \<le> oa"
      and h3: "0 < sz \<longrightarrow> oa + 8 * (sz - 8) + 8 \<le> length (base st) \<and>
                 ob + 8 * (sz - 8) + 8 \<le> length (base st)" by blast+
    show "swap st (Base, int oa) (Base, int ob) sz = Inr (st\<lparr>base := long_swaps (base st) oa ob sz\<rparr>)"
      using h1 h2 h3 by (rule swap_closed)
    show "long_swaps (base st) oa ob sz = xch8 (base st) oa ob" if "sz = 8"
      using that by (simp add: long_swaps_8)
    fix x
    assume "longs_apart oa ob sz" "x < length (base st)"
    with h1 h3 show "long_swaps (base st) oa ob sz ! x =
            (if in_longs oa sz x then base st ! (x - oa + ob)
             else if in_longs ob sz x then base st ! (x - ob + oa) else base st ! x)"
      by (intro long_swaps_nth)
  qed
  have p3: "sz mod 8 = 0 \<and> 8 < sz \<longrightarrow>
      sz \<le> 8 * (sz - 8) \<and>
      (\<not> (long_in_bounds st a (sz - 8) \<and> long_in_bounds st b (sz - 8)) \<longrightarrow>
         (\<exists>e. swap st a b sz = Inl e)) \<and>
      (longs_apart oa ob sz \<and> oa + 8 * (sz - 8) + 8 \<le> length (base st) \<and>
       ob + 8 * (sz - 8) + 8 \<le> length (base st) \<and> t < 8 \<longrightarrow>
         long_swaps (base st) oa ob sz ! (oa + 8 * (sz - 8) + t) = base st ! (ob + 8 * (sz - 8) + t) \<and>
         long_swaps (base st) oa ob sz ! (ob + 8 * (sz - 8) + t) = base st ! (oa + 8 * (sz - 8) + t) \<and>
         (oa + sz \<le> ob \<longrightarrow>
            long_swaps (base st) oa ob sz ! (oa + 8 + t) = base st ! (oa + 8 + t)))"
  proof (intro impI conjI)
    assume h: "sz mod 8 = 0 \<and> 8 < sz"
    then have h1: "sz mod 8 = 0" and h2: "8 < sz" by simp_all
    from h show "sz \<le> 8 * (sz - 8)" by presburger
    show "\<exists>e. swap st a b sz = Inl e"
      if "\<not> (long_in_bounds st a (sz - 8) \<and> long_in_bounds st b (sz - 8))"
      using h1 h2 that by (rule swap_wide_fault)
    assume g: "longs_apart oa ob sz \<and> oa + 8 * (sz - 8) + 8 \<le> length (base st) \<and>
       ob + 8 * (sz - 8) + 8 \<le> length (base st) \<and> t < 8"
    then have g1: "longs_apart oa ob sz" and g2: "oa + 8 * (sz - 8) + 8 \<le> length (base st)"
      and g3: "ob + 8 * (sz - 8) + 8 \<le> length (base st)" and g4: "t < 8" by simp_all
    show "long_swaps (base st) oa ob sz ! (oa + 8 * (sz - 8) + t) = base st ! (ob + 8 * (sz - 8) + t)"
      using h1 h2 g1 g2 g3 g4 by (rule swap_wide_positions(1))
    show "long_swaps (base st) oa ob sz ! (ob + 8 * (sz - 8) + t) = base st ! (oa + 8 * (sz - 8) + t)"
      using h1 h2 g1 g2 g3 g4 by (rule swap_wide_positions(2))
    show "long_swaps (base st) oa ob sz ! (oa + 8 + t) = base st ! (oa + 8 + t)" if "oa + sz \<le> ob"
      using h1 h2 g1 g2 g3 g4 that by (rule swap_wide_positions(3))
  qed
  have p4: "(reverse_loop st low sz i j = Inr st' \<longrightarrow> (\<exists>ps. swaps_along sz ps st = Inr st')) \<and>
    (merge_worker st compar asec m sz bg en = Inr st' \<longrightarrow> (\<exists>ps. swaps_along sz ps st = Inr st')) \<and>
    (median3 st compar sz lo mid hi = Inr st' \<longrightarrow> (\<exists>ps. swaps_along sz ps st = Inr st')) \<and>
    (partition_loop st compar sz l r = Inr (st', i', j') \<longrightarrow>
       (\<exists>ps. swaps_along sz ps st = Inr st'))"
    using reverse_loop_swaps merge_worker_swaps median3_swaps partition_loop_swaps
    by (intro conjI impI)
  have p5: "sz mod 8 \<noteq> 0 \<longrightarrow>
      reverse_loop st low sz i j = Inr st \<and>
      (merge_worker st compar asec m sz bg en = Inr st' \<longrightarrow> st' = st) \<and>
      (median3 st compar sz lo mid hi = Inr st' \<longrightarrow> st' = st) \<and>
      (partition_loop st compar sz l r = Inr (st', i', j') \<longrightarrow> st' = st)"
  proof (intro impI conjI)
    assume u: "sz mod 8 \<noteq> 0"
    show "reverse_loop st low sz i j = Inr st" using u by (rule reverse_loop_unaligned)
    show "st' = st" if "merge_worker st compar asec m sz bg en = Inr st'"
      using u that by (rule merge_worker_unaligned)
    show "st' = st" if "median3 st compar sz lo mid hi = Inr st'"
      using u that by (rule median3_unaligned)
    show "st' = st" if "partition_loop st compar sz l r = Inr (st', i', j')"
      using u that by (rule partition_loop_unaligned)
  qed
  have p6: "base st = concat B \<and> uniform 8 B \<longrightarrow>
      (i \<le> j + 1 \<and> low + j < length B \<longrightarrow>
         reverse_loop st low 8 i j =
           Inr (st\<lparr>base := concat (rev_range B (low + i) (low + j))\<rparr>)) \<and>
      (n2 + m \<le> length B \<and> 0 < m \<longrightarrow>
         merge_worker st compar asec m 8 (int n1) (int n2) =
           Inr (st\<lparr>base := concat (cas_pass compar asec m B n1 n2)\<rparr>)) \<and>
      (valid_compar compar \<and> k1 \<le> k2 \<and> k2 \<le> k3 \<and> k3 < length B \<longrightarrow>
         (\<exists>Bm. median3 st compar 8 (Base, int k1 * 8) (Base, int k2 * 8) (Base, int k3 * 8) =
                 Inr (st\<lparr>base := concat Bm\<rparr>) \<and>
               med_post compar B Bm k1 k2 k3)) \<and>
      (valid_compar compar \<and> scratch st = Some (B ! s) \<and> k1 \<le> s \<and> s \<le> k3 \<and>
       k3 < length B \<and> length B < 2 ^ 63 \<longrightarrow>
         (\<exists>B' ci cj. partition_loop st compar 8 (int k1) (int k3) =
                 Inr (st\<lparr>base := concat B'\<rparr>, int ci, int cj - 1) \<and>
               mset B' = mset B \<and> cj \<le> ci \<and>
               (\<forall>k. k < k1 \<or> k3 < k \<longrightarrow> B' ! k = B ! k) \<and>
               (\<forall>k. k1 \<le> k \<and> k < ci \<longrightarrow> compar (B' ! k) (B ! s) \<le> 0) \<and>
               (\<forall>k. cj \<le> k \<and> k \<le> k3 \<longrightarrow> 0 \<le> compar (B' ! k) (B ! s))))"
  proof (intro impI conjI)
    assume h: "base st = concat B \<and> uniform 8 B"
    then have b: "base st = concat B" and u: "uniform 8 B" by simp_all
    show "reverse_loop st low 8 i j = Inr (st\<lparr>base := concat (rev_range B (low + i) (low + j))\<rparr>)"
      if "i \<le> j + 1 \<and> low + j < length B"
      using that by (intro reverse_loop_ok [OF b u]) simp_all
    show "merge_worker st compar asec m 8 (int n1) (int n2) =
           Inr (st\<lparr>base := concat (cas_pass compar asec m B n1 n2)\<rparr>)"
      if "n2 + m \<le> length B \<and> 0 < m"
      using that by (intro merge_worker_ok [OF b u]) simp_all
    show "\<exists>Bm. median3 st compar 8 (Base, int k1 * 8) (Base, int k2 * 8) (Base, int k3 * 8) =
                 Inr (st\<lparr>base := concat Bm\<rparr>) \<and>
               med_post compar B Bm k1 k2 k3"
      if g: "valid_compar compar \<and> k1 \<le> k2 \<and> k2 \<le> k3 \<and> k3 < length B"
    proof -
      from g have g': "valid_compar compar" "k1 \<le> k2" "k2 \<le> k3" "k3 < length B" by simp_all
      from median3_ok [OF g'(1) b u g'(2,3,4)] show ?thesis by blast
    qed
    show "\<exists>B' ci cj. partition_loop st compar 8 (int k1) (int k3) =
                 Inr (st\<lparr>base := concat B'\<rparr>, int ci, int cj - 1) \<and>
               mset B' = mset B \<and> cj \<le> ci \<and>
               (\<forall>k. k < k1 \<or> k3 < k \<longrightarrow> B' ! k = B ! k) \<and>
               (\<forall>k. k1 \<le> k \<and> k < ci \<longrightarrow> compar (B' ! k) (B ! s) \<le> 0) \<and>
               (\<forall>k. cj \<le> k \<and> k \<le> k3 \<longrightarrow> 0 \<le> compar (B' ! k) (B ! s))"
      if g: "valid_compar compar \<and> scratch st = Some (B ! s) \<and> k1 \<le> s \<and> s \<le> k3 \<and>
       k3 < length B \<and> length B < 2 ^ 63"
    proof -
      from g have g': "valid_compar compar" "scratch st = Some (B ! s)" "k1 \<le> s" "s \<le> k3"
        "k3 < length B" "length B < 2 ^ 63" by simp_all
      show ?thesis using g'(1) b u g'(2,3,4,5,6) by (rule partition_loop_initial)
    qed
  qed
  show ?thesis
    by (rule conjI, rule p1, rule conjI, rule p2, rule conjI, rule p3, rule conjI, rule p4,
        rule conjI, rule p5, rule p6)
qed

theorem swap_exchanges_longs_only_witness:
  "swap (mem_of [1, 2, 3, 4, 5, 6, 7, 8, 9, 10, 11, 12, 13, 14, 15, 16]) (Base, 0) (Base, 8) 4 =
     Inr (mem_of [1, 2, 3, 4, 5, 6, 7, 8, 9, 10, 11, 12, 13, 14, 15, 16]) \<and>
   swap (mem_of [1, 2, 3, 4, 5, 6, 7, 8, 9, 10, 11, 12, 13, 14, 15, 16]) (Base, 8) (Base, 0) 8 =
     Inr (mem_of [9, 10, 11, 12, 13, 14, 15, 16, 1, 2, 3, 4, 5, 6, 7, 8]) \<and>
   swap (mem_of (map of_nat [0..<96])) (Base, 0) (Base, 16) 16 =
     Inr (mem_of (map of_nat ([16..<24] @ [8..<16] @ [0..<8] @ [24..<64] @
                             [80..<88] @ [72..<80] @ [64..<72] @ [88..<96]))) \<and>
   long_swaps (map of_nat [0..<96]) 0 16 16 ! 64 = (80 :: byte) \<and>
   long_swaps (map of_nat [0..<96]) 0 16 16 ! 80 = (64 :: byte) \<and>
   long_swaps (map of_nat [0..<96]) 0 16 16 ! 8 = (8 :: byte) \<and>
   (\<exists>e. swap (mem_of (map of_nat [0..<32])) (Base, 0) (Base, 16) 16 = Inl e) \<and>
   reverse_loop (mem_of [1, 2, 3, 4, 5, 6, 7, 8, 9, 10, 11, 12, 13, 14, 15, 16]) 0 4 0 3 =
     Inr (mem_of [1, 2, 3, 4, 5, 6, 7, 8, 9, 10, 11, 12, 13, 14, 15, 16]) \<and>
   reverse_loop (mem_of (concat [el 1 0, el 2 0, el 3 0])) 0 8 0 2 =
     Inr (mem_of (concat [el 3 0, el 2 0, el 1 0])) \<and>
   (\<exists>ps. swaps_along 8 ps (mem_of (concat [el 1 0, el 2 0, el 3 0])) =
     Inr (mem_of (concat [el 3 0, el 2 0, el 1 0]))) \<and>
   merge_worker (mem_of (concat [el 2 0, el 9 0, el 5 0, el 1 0])) cmp_first True 2 8 0 2 =
     Inr (mem_of (concat [el 2 0, el 1 0, el 5 0, el 9 0])) \<and>
   median3 (mem_of (concat [el 3 0, el 2 0, el 1 0])) cmp_first 8 (Base, 0) (Base, 8) (Base, 16) =
     Inr (mem_of (concat [el 1 0, el 2 0, el 3 0])) \<and>
   (\<exists>Bm. median3 (mem_of (concat [el 3 0, el 2 0, el 1 0])) cmp_first 8 (Base, 0) (Base, 8) (Base, 16) =
           Inr (mem_of (concat Bm)) \<and>
         med_post cmp_first [el 3 0, el 2 0, el 1 0] Bm 0 1 2) \<and>
   partition_loop (mem_of (concat [el 3 0, el 2 0, el 1 0])\<lparr>scratch := Some (el 2 0)\<rparr>)
       cmp_first 8 0 2 =
     Inr (mem_of (concat [el 1 0, el 2 0, el 3 0])\<lparr>scratch := Some (el 2 0)\<rparr>, 2, 0) \<and>
   (\<exists>B' ci cj. partition_loop (mem_of (concat [el 3 0, el 2 0, el 1 0])\<lparr>scratch := Some (el 2 0)\<rparr>)
           cmp_first 8 0 2 =
         Inr (mem_of (concat B')\<lparr>scratch := Some (el 2 0)\<rparr>, int ci, int cj - 1) \<and>
       mset B' = mset [el 3 0, el 2 0, el 1 0] \<and> cj \<le> ci)"
proof -
  let ?bm = "[1, 2, 3, 4, 5, 6, 7, 8, 9, 10, 11, 12, 13, 14, 15, 16] :: byte list"
  let ?m = "mem_of ?bm"
  let ?bw = "map of_nat [0..<96] :: byte list"
  let ?w = "mem_of ?bw"
  let ?wl = "map of_nat ([16..<24] @ [8..<16] @ [0..<8] @ [24..<64] @
                             [80..<88] @ [72..<80] @ [64..<72] @ [88..<96]) :: byte list"
  let ?s = "mem_of (map of_nat [0..<32])"
  let ?X = "[el 1 0, el 2 0, el 3 0]" and ?Y = "[el 3 0, el 2 0, el 1 0]"
  let ?M = "[el 2 0, el 9 0, el 5 0, el 1 0]"
  let ?p = "mem_of (concat ?Y)\<lparr>scratch := Some (el 2 0)\<rparr>"
  note T = swap_exchanges_longs_only
  have bm: "base ?m = ?bm" and bw: "base ?w = ?bw" by (simp_all add: mem_of_def)
  have w1: "swap ?m (Base, 0) (Base, 8) 4 = Inr ?m"
    by (rule T [where sz = 4 and st = ?m and a = "(Base, 0)" and b = "(Base, 8)",
          THEN conjunct1, THEN mp]) simp
  have x8: "xch8 ?bm 8 0 = [9, 10, 11, 12, 13, 14, 15, 16, 1, 2, 3, 4, 5, 6, 7, 8]"
    by code_simp
  have w2a: "swap ?m (Base, int 8) (Base, int 0) 8 = Inr (?m\<lparr>base := long_swaps (base ?m) 8 0 8\<rparr>)"
    by (rule T [where sz = 8 and oa = 8 and ob = 0 and st = ?m,
          THEN conjunct2, THEN conjunct1, THEN mp, THEN conjunct1]) (simp add: mem_of_def)
  have w2b: "long_swaps (base ?m) 8 0 8 = xch8 (base ?m) 8 0"
    by (rule T [where sz = 8 and oa = 8 and ob = 0 and st = ?m,
          THEN conjunct2, THEN conjunct1, THEN mp, THEN conjunct2, THEN conjunct1, THEN mp])
       (simp_all add: mem_of_def)
  have w2: "swap ?m (Base, 8) (Base, 0) 8 =
      Inr (mem_of [9, 10, 11, 12, 13, 14, 15, 16, 1, 2, 3, 4, 5, 6, 7, 8])"
  proof -
    have e: "long_swaps ?bm 8 0 8 = [9, 10, 11, 12, 13, 14, 15, 16, 1, 2, 3, 4, 5, 6, 7, 8]"
      using w2b unfolding bm x8 .
    show ?thesis using w2a unfolding bm e by (simp add: mem_of_def)
  qed
  have xw: "long_swaps ?bw 0 16 16 = ?wl" by code_simp
  have w3a: "swap ?w (Base, int 0) (Base, int 16) 16 = Inr (?w\<lparr>base := long_swaps (base ?w) 0 16 16\<rparr>)"
    by (rule T [where sz = 16 and oa = 0 and ob = 16 and st = ?w,
          THEN conjunct2, THEN conjunct1, THEN mp, THEN conjunct1]) (simp add: mem_of_def)
  have w3: "swap ?w (Base, 0) (Base, 16) 16 = Inr (mem_of ?wl)"
    using w3a unfolding bw xw by (simp add: mem_of_def)
  have la: "longs_apart 0 16 16" by code_simp
  have w4a: "long_swaps (base ?w) 0 16 16 ! (0 + 8 * (16 - 8) + 0) = base ?w ! (16 + 8 * (16 - 8) + 0)"
    by (rule T [where sz = 16 and oa = 0 and ob = 16 and st = ?w and t = 0,
          THEN conjunct2, THEN conjunct2, THEN conjunct1, THEN mp, THEN conjunct2, THEN conjunct2,
          THEN mp, THEN conjunct1]) (simp_all add: mem_of_def la)
  have w4b: "long_swaps (base ?w) 0 16 16 ! (16 + 8 * (16 - 8) + 0) = base ?w ! (0 + 8 * (16 - 8) + 0)"
    by (rule T [where sz = 16 and oa = 0 and ob = 16 and st = ?w and t = 0,
          THEN conjunct2, THEN conjunct2, THEN conjunct1, THEN mp, THEN conjunct2, THEN conjunct2,
          THEN mp, THEN conjunct2, THEN conjunct1]) (simp_all add: mem_of_def la)
  have w4c: "long_swaps (base ?w) 0 16 16 ! (0 + 8 + 0) = base ?w ! (0 + 8 + 0)"
    by (rule T [where sz = 16 and oa = 0 and ob = 16 and st = ?w and t = 0,
          THEN conjunct2, THEN conjunct2, THEN conjunct1, THEN mp, THEN conjunct2, THEN conjunct2,
          THEN mp, THEN conjunct2, THEN conjunct2, THEN mp]) (simp_all add: mem_of_def la)
  have w4: "long_swaps ?bw 0 16 16 ! 64 = (80 :: byte) \<and>
      long_swaps ?bw 0 16 16 ! 80 = (64 :: byte) \<and>
      long_swaps ?bw 0 16 16 ! 8 = (8 :: byte)"
    using w4a w4b w4c unfolding bw by simp
  have w5: "\<exists>e. swap ?s (Base, 0) (Base, 16) 16 = Inl e"
    by (rule T [where sz = 16 and st = ?s and a = "(Base, 0)" and b = "(Base, 16)",
          THEN conjunct2, THEN conjunct2, THEN conjunct1, THEN mp, THEN conjunct2, THEN conjunct1,
          THEN mp]) (simp_all add: long_in_bounds_def block_def mem_of_def)
  have w6: "reverse_loop ?m 0 4 0 3 = Inr ?m"
    by (rule T [where sz = 4 and st = ?m and low = 0 and i = 0 and j = 3,
          THEN conjunct2, THEN conjunct2, THEN conjunct2, THEN conjunct2, THEN conjunct1, THEN mp,
          THEN conjunct1]) simp
  have rr: "rev_range ?X (0 + 0) (0 + 2) = ?Y" by code_simp
  have w7a: "reverse_loop (mem_of (concat ?X)) 0 8 0 2 =
      Inr (mem_of (concat ?X)\<lparr>base := concat (rev_range ?X (0 + 0) (0 + 2))\<rparr>)"
    by (rule T [where st = "mem_of (concat ?X)" and B = ?X and low = 0 and i = 0 and j = 2,
          THEN conjunct2, THEN conjunct2, THEN conjunct2, THEN conjunct2, THEN conjunct2, THEN mp,
          THEN conjunct1, THEN mp]) (simp_all add: mem_of_def el_def)
  have w7: "reverse_loop (mem_of (concat ?X)) 0 8 0 2 = Inr (mem_of (concat ?Y))"
    using w7a unfolding rr by (simp add: mem_of_def)
  have w8: "\<exists>ps. swaps_along 8 ps (mem_of (concat ?X)) = Inr (mem_of (concat ?Y))"
    by (rule T [where st = "mem_of (concat ?X)" and sz = 8 and low = 0 and i = 0 and j = 2
          and st' = "mem_of (concat ?Y)",
          THEN conjunct2, THEN conjunct2, THEN conjunct2, THEN conjunct1, THEN conjunct1, THEN mp])
       (rule w7)
  have cp: "cas_pass cmp_first True 2 ?M 0 2 = [el 2 0, el 1 0, el 5 0, el 9 0]" by code_simp
  have w9a: "merge_worker (mem_of (concat ?M)) cmp_first True 2 8 (int 0) (int 2) =
      Inr (mem_of (concat ?M)\<lparr>base := concat (cas_pass cmp_first True 2 ?M 0 2)\<rparr>)"
    by (rule T [where st = "mem_of (concat ?M)" and B = ?M and compar = cmp_first and asec = True
          and m = 2 and ?n1.0 = 0 and ?n2.0 = 2,
          THEN conjunct2, THEN conjunct2, THEN conjunct2, THEN conjunct2, THEN conjunct2, THEN mp,
          THEN conjunct2, THEN conjunct1, THEN mp]) (simp_all add: mem_of_def el_def)
  have w9: "merge_worker (mem_of (concat ?M)) cmp_first True 2 8 0 2 =
      Inr (mem_of (concat [el 2 0, el 1 0, el 5 0, el 9 0]))"
    using w9a unfolding cp by (simp add: mem_of_def)
  have w10: "median3 (mem_of (concat ?Y)) cmp_first 8 (Base, 0) (Base, 8) (Base, 16) =
      Inr (mem_of (concat ?X))"
    by code_simp
  have w11a: "\<exists>Bm. median3 (mem_of (concat ?Y)) cmp_first 8 (Base, int 0 * 8) (Base, int 1 * 8)
             (Base, int 2 * 8) = Inr (mem_of (concat ?Y)\<lparr>base := concat Bm\<rparr>) \<and>
           med_post cmp_first ?Y Bm 0 1 2"
    by (rule T [where st = "mem_of (concat ?Y)" and B = ?Y and compar = cmp_first
          and ?k1.0 = 0 and ?k2.0 = 1 and ?k3.0 = 2,
          THEN conjunct2, THEN conjunct2, THEN conjunct2, THEN conjunct2, THEN conjunct2, THEN mp,
          THEN conjunct2, THEN conjunct2, THEN conjunct1, THEN mp])
       (simp_all add: mem_of_def el_def valid_cmp_first)
  have w11: "\<exists>Bm. median3 (mem_of (concat ?Y)) cmp_first 8 (Base, 0) (Base, 8) (Base, 16) =
           Inr (mem_of (concat Bm)) \<and> med_post cmp_first ?Y Bm 0 1 2"
    using w11a by (simp add: mem_of_def)
  have w12: "partition_loop ?p cmp_first 8 0 2 =
     Inr (mem_of (concat ?X)\<lparr>scratch := Some (el 2 0)\<rparr>, 2, 0)"
    by code_simp
  have w13a: "\<exists>B' ci cj. partition_loop ?p cmp_first 8 (int 0) (int 2) =
                 Inr (?p\<lparr>base := concat B'\<rparr>, int ci, int cj - 1) \<and>
               mset B' = mset ?Y \<and> cj \<le> ci \<and>
               (\<forall>k. k < 0 \<or> 2 < k \<longrightarrow> B' ! k = ?Y ! k) \<and>
               (\<forall>k. 0 \<le> k \<and> k < ci \<longrightarrow> cmp_first (B' ! k) (?Y ! 1) \<le> 0) \<and>
               (\<forall>k. cj \<le> k \<and> k \<le> 2 \<longrightarrow> 0 \<le> cmp_first (B' ! k) (?Y ! 1))"
    by (rule T [where st = ?p and B = ?Y and compar = cmp_first and ?k1.0 = 0 and s = 1
          and ?k3.0 = 2,
          THEN conjunct2, THEN conjunct2, THEN conjunct2, THEN conjunct2, THEN conjunct2, THEN mp,
          THEN conjunct2, THEN conjunct2, THEN conjunct2, THEN mp])
       (simp_all add: mem_of_def el_def valid_cmp_first)
  then obtain B' ci cj where pl: "partition_loop ?p cmp_first 8 (int 0) (int 2) =
                 Inr (?p\<lparr>base := concat B'\<rparr>, int ci, int cj - 1)"
      "mset B' = mset ?Y" "cj \<le> ci" by blast
  have "partition_loop ?p cmp_first 8 0 2 =
         Inr (mem_of (concat B')\<lparr>scratch := Some (el 2 0)\<rparr>, int ci, int cj - 1)"
    using pl(1) by (simp add: mem_of_def)
  then have w13: "\<exists>B' ci cj. partition_loop ?p cmp_first 8 0 2 =
         Inr (mem_of (concat B')\<lparr>scratch := Some (el 2 0)\<rparr>, int ci, int cj - 1) \<and>
       mset B' = mset ?Y \<and> cj \<le> ci"
    using pl(2,3) by blast
  show ?thesis
    by (rule conjI, rule w1, rule conjI, rule w2, rule conjI, rule w3,
        rule conjI, rule w4 [THEN conjunct1], rule conjI, rule w4 [THEN conjunct2, THEN conjunct1],
        rule conjI, rule w4 [THEN conjunct2, THEN conjunct2],
        rule conjI, rule w5, rule conjI, rule w6, rule conjI, rule w7,
        rule conjI, rule w8, rule conjI, rule w9, rule conjI, rule w10, rule conjI, rule w11,
        rule conjI, rule w12, rule w13)
qed

text \<open>
  C5. In \<^verbatim>\<open>p_merge\<close>, for two adjacent ranges \<open>A\<close> (elements \<open>l..m\<close>) and \<open>B\<close> (elements
  \<open>m+1..r\<close>) that are sorted under the comparator, the range \<open>l..r\<close> holds afterwards the
  list \<open>merged c A B\<close>, in which the left element is written first whenever the current
  left and right elements compare equal. Hence the output is sorted and, among the
  elements that compare equal to any \<open>z\<close>, those of the left half come first, in their order,
  followed by those of the right half. The element size is a multiple of 8 and the scratch
  array is allocated, as \<^verbatim>\<open>my_memcpy\<close> and the copy loops require.
\<close>

theorem p_merge_left_first_on_ties:
  assumes "sz mod 8 = 0" "valid_compar c"
    "base st = concat (L @ A @ B @ R)" "uniform sz (L @ A @ B @ R)"
    "temp st = Some (concat T)" "uniform sz T" "length T = length (L @ A @ B @ R)"
    "length L = l" "length A = m - l + 1" "length B = r - m" "l \<le> m"
    "sorted_by c A" "sorted_by c B"
  shows "\<exists>st' out. p_merge st sz c l r m = Inr st' \<and> base st' = concat (L @ out @ R) \<and>
           out = merged c A B \<and> sorted_by c out \<and>
           (\<forall>x xs y ys. c x y = 0 \<longrightarrow> merged c (x # xs) (y # ys) = x # merged c xs (y # ys)) \<and>
           (\<forall>z. filter (\<lambda>y. c z y = 0) out =
                filter (\<lambda>y. c z y = 0) A @ filter (\<lambda>y. c z y = 0) B)"
proof -
  have "p_merge st sz c l r m =
     Inr (st\<lparr>temp := Some (concat (overlay T (L @ A @ B @ R) l (m + 1 + (r - m)))),
             base := concat (L @ merged c A B @ R)\<rparr>)"
    using assms(1,3,4,5,6,7,8,9,10,11) by (rule p_merge_ok)
  moreover have "sorted_by c (merged c A B)" using assms(2,12,13) by (rule sorted_merged)
  moreover have "\<forall>z. filter (\<lambda>y. c z y = 0) (merged c A B) =
                filter (\<lambda>y. c z y = 0) A @ filter (\<lambda>y. c z y = 0) B"
    using filter_merged [OF assms(2,12)] by blast
  ultimately show ?thesis by simp
qed

theorem p_merge_left_first_on_ties_witness:
  "\<exists>st'. p_merge (mem_of (concat [el 1 0, el 3 0, el 5 0, el 2 1, el 3 1, el 6 1])
                  \<lparr>temp := Some (replicate 48 0)\<rparr>) 8 cmp_first 0 5 2 = Inr st' \<and>
         base st' = concat [el 1 0, el 2 1, el 3 0, el 3 1, el 5 0, el 6 1]"
proof -
  let ?A = "[el 1 0, el 3 0, el 5 0]" and ?B = "[el 2 1, el 3 1, el 6 1]"
  let ?st = "mem_of (concat [el 1 0, el 3 0, el 5 0, el 2 1, el 3 1, el 6 1])
                  \<lparr>temp := Some (replicate 48 0)\<rparr>"
  have m: "merged cmp_first ?A ?B = [el 1 0, el 2 1, el 3 0, el 3 1, el 5 0, el 6 1]"
    by (simp add: cmp_first_def key_of_def el_def)
  have t: "replicate 48 (0::byte) = concat (replicate 6 (replicate 8 0))"
    by (simp add: concat_replicate_zeros)
  have "\<exists>st' out. p_merge ?st 8 cmp_first 0 5 2 = Inr st' \<and> base st' = concat ([] @ out @ []) \<and>
           out = merged cmp_first ?A ?B \<and> sorted_by cmp_first out \<and>
           (\<forall>x xs y ys. cmp_first x y = 0 \<longrightarrow> merged cmp_first (x # xs) (y # ys) = x # merged cmp_first xs (y # ys)) \<and>
           (\<forall>z. filter (\<lambda>y. cmp_first z y = 0) out =
                filter (\<lambda>y. cmp_first z y = 0) ?A @ filter (\<lambda>y. cmp_first z y = 0) ?B)"
  proof (rule p_merge_left_first_on_ties [where T = "replicate 6 (replicate 8 0)"])
    show "(8::nat) mod 8 = 0" by simp
    show "valid_compar cmp_first" by (rule valid_cmp_first)
    show "base ?st = concat ([] @ ?A @ ?B @ [])" by (simp add: mem_of_def)
    show "uniform 8 ([] @ ?A @ ?B @ [])" by (simp add: el_def)
    show "temp ?st = Some (concat (replicate 6 (replicate 8 0)))" by (simp add: t)
    show "uniform 8 (replicate 6 (replicate 8 (0::byte)))" by (simp add: uniform_def)
    show "length (replicate 6 (replicate 8 (0::byte))) = length ([] @ ?A @ ?B @ [])" by simp
    show "length ([]::byte list list) = 0" by simp
    show "length ?A = 2 - 0 + 1" by simp
    show "length ?B = 5 - 2" by simp
    show "(0::nat) \<le> 2" by simp
    show "sorted_by cmp_first ?A" by (simp add: sorted_by_def cmp_first_def key_of_def el_def)
    show "sorted_by cmp_first ?B" by (simp add: sorted_by_def cmp_first_def key_of_def el_def)
  qed
  then show ?thesis using m by auto
qed

text \<open>
  C6. \<^verbatim>\<open>emu_sort_local_merge\<close> is stable: for every count and valid comparator, when the
  element size is a multiple of 8 and the scratch array can be allocated, the call returns
  with the array sorted, a permutation of the input, and with the elements that compare
  equal to any \<open>z\<close> in their input order.
\<close>

theorem emu_sort_local_merge_stable:
  assumes "sz mod 8 = 0" "valid_compar c" "base st = concat X" "uniform sz X" "length X = num"
    "sz * num \<le> heap st"
  shows "\<exists>st' out. emu_sort_local_merge st num sz c = Inr st' \<and> base st' = concat out \<and>
           sorted_by c out \<and> mset out = mset X \<and>
           (\<forall>z. filter (\<lambda>y. c z y = 0) out = filter (\<lambda>y. c z y = 0) X)"
proof -
  obtain st' out where r: "emu_sort_local_merge st num sz c = Inr st'" "base st' = concat out"
      "sorted_by c out" "stable_of c X out"
    using emu_sort_local_merge_ok [OF assms] by blast
  have "mset out = mset X" using assms(2) r(4) by (rule stable_of_mset)
  then show ?thesis using r by (auto simp: stable_of_def)
qed

theorem emu_sort_local_merge_stable_witness:
  "(8::nat) mod 8 = 0 \<and> valid_compar cmp_first \<and>
   emu_sort_local_merge (mem_of (concat [el 3 0, el 1 0, el 2 0, el 1 1, el 3 1])) 5 8 cmp_first =
     Inr (mem_of (concat [el 1 0, el 1 1, el 2 0, el 3 0, el 3 1])) \<and>
   (\<exists>st' out.
      emu_sort_local_merge (mem_of (concat [el 3 0, el 1 0, el 2 0, el 1 1, el 3 1])) 5 8 cmp_first =
        Inr st' \<and> base st' = concat out \<and> sorted_by cmp_first out \<and>
      mset out = mset [el 3 0, el 1 0, el 2 0, el 1 1, el 3 1] \<and>
      (\<forall>z. filter (\<lambda>y. cmp_first z y = 0) out =
           filter (\<lambda>y. cmp_first z y = 0) [el 3 0, el 1 0, el 2 0, el 1 1, el 3 1]))"
proof -
  let ?X = "[el 3 0, el 1 0, el 2 0, el 1 1, el 3 1]"
  have ev: "emu_sort_local_merge (mem_of (concat ?X)) 5 8 cmp_first =
     Inr (mem_of (concat [el 1 0, el 1 1, el 2 0, el 3 0, el 3 1]))"
    by code_simp
  have "\<exists>st' out. emu_sort_local_merge (mem_of (concat ?X)) 5 8 cmp_first = Inr st' \<and>
           base st' = concat out \<and> sorted_by cmp_first out \<and> mset out = mset ?X \<and>
           (\<forall>z. filter (\<lambda>y. cmp_first z y = 0) out = filter (\<lambda>y. cmp_first z y = 0) ?X)"
  proof (rule emu_sort_local_merge_stable)
    show "(8::nat) mod 8 = 0" by simp
    show "valid_compar cmp_first" by (rule valid_cmp_first)
    show "base (mem_of (concat ?X)) = concat ?X" by (simp add: mem_of_def)
    show "uniform 8 ?X" by (simp add: el_def)
    show "length ?X = 5" by simp
    show "8 * 5 \<le> heap (mem_of (concat ?X))" by (simp add: mem_of_def)
  qed
  then show ?thesis using ev valid_cmp_first by simp
qed

text \<open>
  C3 (amended). When the allocation of the scratch array fails, \<^verbatim>\<open>emu_sort_local_merge\<close>
  (for a count above 1) and \<^verbatim>\<open>emu_sort_local\<close> (for a count of at least 32) do not check
  the result of \<^verbatim>\<open>malloc\<close>: for an element size that is a positive multiple of 8 they go
  on to sort with the null scratch pointer, and the run ends at the first copy through a
  null pointer, with the fault \<open>NullPointer\<close>. No allocation-failure error exists, and the
  call does not return normally.
\<close>

theorem malloc_failure_unchecked:
  assumes "sz mod 8 = 0" "0 < sz" "valid_compar c" "base st = concat X" "uniform sz X"
    "length X = num" "heap st < sz * num"
  shows "malloc st (sz * num) = None \<and>
         (1 < num \<longrightarrow> emu_sort_local_merge st num sz c = Inl NullPointer) \<and>
         (32 \<le> num \<longrightarrow> emu_sort_local lib st num sz c = Inl NullPointer)"
proof (intro conjI impI)
  show "malloc st (sz * num) = None" using assms(7) by (simp add: malloc_def)
  show "emu_sort_local_merge st num sz c = Inl NullPointer" if "1 < num"
    using merge_run_null [OF assms that] that by (simp add: emu_sort_local_merge_def)
  show "emu_sort_local lib st num sz c = Inl NullPointer" if "32 \<le> num"
  proof -
    have "1 < num" using that by simp
    from merge_run_null [OF assms this] that show ?thesis by (simp add: emu_sort_local_def)
  qed
qed

theorem malloc_failure_unchecked_witness:
  "malloc (mem_of (concat [el 2 0, el 1 0, el 3 0])\<lparr>heap := 16\<rparr>) (8 * 3) = None \<and>
   emu_sort_local_merge (mem_of (concat [el 2 0, el 1 0, el 3 0])\<lparr>heap := 16\<rparr>) 3 8 cmp_first =
     Inl NullPointer \<and>
   emu_sort_local lib_sort (mem_of (concat (replicate 32 (el 1 0)))\<lparr>heap := 255\<rparr>) 32 8 cmp_first =
     Inl NullPointer"
proof -
  let ?X = "[el 2 0, el 1 0, el 3 0]"
  let ?st = "mem_of (concat ?X)\<lparr>heap := 16\<rparr>"
  let ?Y = "replicate 32 (el 1 0)"
  let ?su = "mem_of (concat ?Y)\<lparr>heap := 255\<rparr>"
  have a: "malloc ?st (8 * 3) = None \<and>
         (1 < (3::nat) \<longrightarrow> emu_sort_local_merge ?st 3 8 cmp_first = Inl NullPointer) \<and>
         (32 \<le> (3::nat) \<longrightarrow> emu_sort_local lib_sort ?st 3 8 cmp_first = Inl NullPointer)"
  proof (rule malloc_failure_unchecked)
    show "(8::nat) mod 8 = 0" "(0::nat) < 8" by simp_all
    show "valid_compar cmp_first" by (rule valid_cmp_first)
    show "base ?st = concat ?X" by (simp add: mem_of_def)
    show "uniform 8 ?X" by (simp add: el_def)
    show "length ?X = 3" by simp
    show "heap ?st < 8 * 3" by simp
  qed
  have b: "malloc ?su (8 * 32) = None \<and>
         (1 < (32::nat) \<longrightarrow> emu_sort_local_merge ?su 32 8 cmp_first = Inl NullPointer) \<and>
         (32 \<le> (32::nat) \<longrightarrow> emu_sort_local lib_sort ?su 32 8 cmp_first = Inl NullPointer)"
  proof (rule malloc_failure_unchecked)
    show "(8::nat) mod 8 = 0" "(0::nat) < 8" by simp_all
    show "valid_compar cmp_first" by (rule valid_cmp_first)
    show "base ?su = concat ?Y" by (simp add: mem_of_def)
    show "uniform 8 ?Y" by (simp add: uniform_def el_def)
    show "length ?Y = 32" by simp
    show "heap ?su < 8 * 32" by simp
  qed
  show ?thesis using a b by simp
qed

text \<open>
  C3, as stated, fails: with room for one element only, sorting two elements with
  \<^verbatim>\<open>emu_sort_local_merge\<close> gets the null pointer from \<^verbatim>\<open>malloc\<close> and writes through it.
\<close>

theorem malloc_failure_null_write:
  "malloc (mem_of (concat [el 3 0, el 1 0])\<lparr>heap := 8\<rparr>) (8 * 2) = None \<and>
   emu_sort_local_merge (mem_of (concat [el 3 0, el 1 0])\<lparr>heap := 8\<rparr>) 2 8 cmp_first =
     Inl NullPointer"
  by code_simp

end
